theory Spec2Isabelle
  imports Main "HOL-Library.Sublist" "HOL-Library.AList"
begin

section \<open>Strings\<close>

text \<open>
  The source works on JavaScript strings. They are modelled as \<open>string\<close>; the two
  library calls the classifier uses are \<open>String.prototype.toLowerCase\<close> and
  \<open>String.prototype.includes\<close>. \<open>toLowerCase\<close> maps the letters \<open>A\<close>..\<open>Z\<close> (codes 65..90)
  to \<open>a\<close>..\<open>z\<close> by setting the bit of value 32 and leaves every other character as it is
  (letters outside ASCII are not folded by the model).
\<close>

definition toLowerChar :: "char \<Rightarrow> char" where
  "toLowerChar c =
     (if 65 \<le> (of_char c :: nat) \<and> (of_char c :: nat) \<le> 90
      then (case c of Char b0 b1 b2 b3 b4 b5 b6 b7 \<Rightarrow> Char b0 b1 b2 b3 b4 True b6 b7)
      else c)"

definition toLowerCase :: "string \<Rightarrow> string" where
  "toLowerCase s = map toLowerChar s"

fun startsWith :: "string \<Rightarrow> string \<Rightarrow> bool" where
  "startsWith hay [] = True"
| "startsWith [] (n # ns) = False"
| "startsWith (h # hs) (n # ns) = (h = n \<and> startsWith hs ns)"

text \<open>\<open>hay.includes(needle)\<close>: \<open>needle\<close> occurs in \<open>hay\<close> as a contiguous run.\<close>

fun str_includes :: "string \<Rightarrow> string \<Rightarrow> bool" where
  "str_includes [] needle = (needle = [])"
| "str_includes (h # hs) needle = (startsWith (h # hs) needle \<or> str_includes hs needle)"

section \<open>Process inspector: the safety classifier\<close>

record ProcessInfo =
  pid :: int
  name :: string
  command :: string
  port :: "int option"

definition safePrefixes :: "string list" where
  "safePrefixes = [''node'', ''npm'', ''npx'', ''mcp-interactive-feedback'', ''tsx'']"

definition dangerousNames :: "string list" where
  "dangerousNames =
     [''system'', ''kernel'', ''init'', ''systemd'', ''explorer.exe'', ''winlogon.exe'',
      ''csrss.exe'', ''smss.exe'', ''services.exe'']"

text \<open>
  The two \<open>for\<close> statements of \<open>isSafeToKill\<close> have the same body: return as soon as one word of the
  list occurs in the lowered name or in the lowered command line.
\<close>

fun matchesAny :: "string \<Rightarrow> string \<Rightarrow> string list \<Rightarrow> bool" where
  "matchesAny processName processCommand [] = False"
| "matchesAny processName processCommand (w # ws) =
     (if str_includes processName w \<or> str_includes processCommand w then True
      else matchesAny processName processCommand ws)"

definition isSafeToKill :: "ProcessInfo \<Rightarrow> bool" where
  "isSafeToKill processInfo =
     (let processName = toLowerCase (name processInfo);
          processCommand = toLowerCase (command processInfo)
      in if matchesAny processName processCommand dangerousNames then False
         else if matchesAny processName processCommand safePrefixes then True
         else False)"

section \<open>Session broker: data model\<close>

text \<open>
  Times are the integers \<open>Date.now()\<close> returns (milliseconds); a session's \<open>timeout\<close> is
  in milliseconds as well. Every read of the clock is an argument \<open>now\<close> of the model.
\<close>

datatype errcode =
    SESSION_TIMEOUT | SERVER_SHUTDOWN | FEEDBACK_TIMEOUT
  | NO_AVAILABLE_PORTS | PORT_OCCUPIED | PORT_FORCE_RELEASE_FAILED | PORT_STILL_OCCUPIED
  | UNSAFE_PROCESS_KILL | ERR_SOCKET_BAD_PORT

text \<open>
  \<open>FeedbackData\<close>: one submission of the respondent. An image is kept as an opaque
  string.
\<close>

record FeedbackData =
  sessionId :: string
  fbText :: "string option"
  images :: "string list option"
  timestamp :: int

text \<open>
  The promise behind a call of \<open>collectFeedback\<close>. Its \<open>resolve\<close> and \<open>reject\<close> functions
  may be called any number of times; the first call settles the promise and the later
  ones change nothing. A value passed to \<open>resolve\<close> is recorded as the content the
  feedback array has at the time of the call. A promise is named by its index in \<open>promises\<close>; a feedback array
  (\<open>session.feedback\<close>, shared by reference) by its index in \<open>arrays\<close>.
\<close>

datatype outcome = Resolved "FeedbackData list" | Rejected errcode

record SessionData =
  workSummary :: string
  feedback :: nat
  startTime :: int
  timeout :: int
  resolve :: "nat option"
  reject :: "nat option"

datatype message =
    session_assigned string string
  | no_active_session
  | work_summary_data string
  | feedback_submitted
  | feedback_error string

text \<open>What the server does to the outside, in the order in which it does it.\<close>

datatype effect =
    Invoke nat outcome
  | Emit message
  | ClearInterval
  | DisconnectSockets
  | CloseIO
  | CloseHttp
  | WaitForPortRelease int

text \<open>
  The state of a \<open>WebServer\<close> with its \<open>SessionStorage\<close>. \<open>sessions\<close> is the
  \<open>Map\<close> of the source as an association list in insertion order (the order in which a
  \<open>Map\<close> is iterated); \<open>timers\<close> holds the \<open>setTimeout\<close> closures that have not fired,
  each with the promise and the session id it captured; \<open>awaiting\<close> holds the
  submissions suspended at \<open>await processImages\<close>, each with the session object it read.
\<close>

record server =
  sessions :: "(string \<times> SessionData) list"
  arrays :: "FeedbackData list list"
  promises :: "outcome option list"
  timers :: "(nat \<times> string) list"
  awaiting :: "(SessionData \<times> FeedbackData) list"
  cleanupInterval :: bool
  isServerRunning :: bool
  listenPort :: int
  effects :: "effect list"

definition newServer :: server where
  "newServer =
     \<lparr>sessions = [], arrays = [], promises = [], timers = [], awaiting = [],
      cleanupInterval = True, isServerRunning = False, listenPort = 0, effects = []\<rparr>"

text \<open>A call of the \<open>resolve\<close> or \<open>reject\<close> function of promise \<open>p\<close>.\<close>

definition invoke :: "nat \<Rightarrow> outcome \<Rightarrow> server \<Rightarrow> server" where
  "invoke p oc st =
     st\<lparr>promises :=
          (if p < length (promises st)
           then (promises st)[p := (case promises st ! p of None \<Rightarrow> Some oc | Some first \<Rightarrow> Some first)]
           else promises st),
        effects := effects st @ [Invoke p oc]\<rparr>"

section \<open>Session broker: \<open>SessionStorage\<close>\<close>

text \<open>
  \<open>Map.set\<close> is \<open>AList.update\<close> (an existing key keeps its place and gets the new
  value, a new key goes to the end), \<open>Map.get\<close> is \<open>map_of\<close>, \<open>Map.delete\<close> is
  \<open>AList.delete\<close>.
\<close>

definition createSession :: "string \<Rightarrow> SessionData \<Rightarrow> server \<Rightarrow> server" where
  "createSession sid data st = st\<lparr>sessions := AList.update sid data (sessions st)\<rparr>"

definition deleteSession :: "string \<Rightarrow> server \<Rightarrow> bool \<times> server" where
  "deleteSession sid st =
     (map_of (sessions st) sid \<noteq> None, st\<lparr>sessions := AList.delete sid (sessions st)\<rparr>)"

definition getSession :: "string \<Rightarrow> int \<Rightarrow> server \<Rightarrow> SessionData option \<times> server" where
  "getSession sid now st =
     (case map_of (sessions st) sid of
        None \<Rightarrow> (None, st)
      | Some session \<Rightarrow>
          if now - startTime session > timeout session
          then (None, snd (deleteSession sid st))
          else (Some session, st))"

text \<open>
  \<open>updateSession\<close> is only called with \<open>{ feedback: session.feedback }\<close>, so the update is
  modelled for that field.
\<close>

definition updateSession :: "string \<Rightarrow> nat \<Rightarrow> server \<Rightarrow> bool \<times> server" where
  "updateSession sid fb st =
     (case map_of (sessions st) sid of
        None \<Rightarrow> (False, st)
      | Some session \<Rightarrow>
          (True, st\<lparr>sessions := AList.update sid (session\<lparr>feedback := fb\<rparr>) (sessions st)\<rparr>))"

definition getAllSessions :: "server \<Rightarrow> (string \<times> SessionData) list" where
  "getAllSessions st = sessions st"

definition getSessionCount :: "server \<Rightarrow> nat" where
  "getSessionCount st = length (sessions st)"

text \<open>
  The loop of \<open>cleanupExpiredSessions\<close>. It iterates over the \<open>Map\<close> and deletes the
  entry it is visiting, which leaves the entries still to visit as they were.
\<close>

fun cleanupLoop :: "int \<Rightarrow> (string \<times> SessionData) list \<Rightarrow> nat \<Rightarrow> server \<Rightarrow> nat \<times> server" where
  "cleanupLoop now [] cleanedCount st = (cleanedCount, st)"
| "cleanupLoop now ((sid, session) # rest) cleanedCount st =
     (if now - startTime session > timeout session
      then let st1 = (case reject session of
                        Some r \<Rightarrow> invoke r (Rejected SESSION_TIMEOUT) st
                      | None \<Rightarrow> st);
               st2 = snd (deleteSession sid st1)
           in cleanupLoop now rest (cleanedCount + 1) st2
      else cleanupLoop now rest cleanedCount st)"

definition cleanupExpiredSessions :: "int \<Rightarrow> server \<Rightarrow> nat \<times> server" where
  "cleanupExpiredSessions now st = cleanupLoop now (sessions st) 0 st"

definition stopCleanupTimer :: "server \<Rightarrow> server" where
  "stopCleanupTimer st =
     (if cleanupInterval st
      then st\<lparr>cleanupInterval := False, effects := effects st @ [ClearInterval]\<rparr>
      else st)"

fun rejectAll :: "(string \<times> SessionData) list \<Rightarrow> server \<Rightarrow> server" where
  "rejectAll [] st = st"
| "rejectAll ((sid, session) # rest) st =
     rejectAll rest (case reject session of
                       Some r \<Rightarrow> invoke r (Rejected SERVER_SHUTDOWN) st
                     | None \<Rightarrow> st)"

definition clear :: "server \<Rightarrow> server" where
  "clear st = (rejectAll (sessions st) st)\<lparr>sessions := []\<rparr>"

text \<open>\<open>getStats\<close> counts a stored session as expired or as active by the same test.\<close>

record SessionStats =
  totalSessions :: nat
  activeSessions :: nat
  expiredSessions :: nat

fun statsLoop :: "int \<Rightarrow> (string \<times> SessionData) list \<Rightarrow> nat \<Rightarrow> nat \<Rightarrow> nat \<times> nat" where
  "statsLoop now [] active expired = (active, expired)"
| "statsLoop now ((sid, session) # rest) active expired =
     (if now - startTime session > timeout session
      then statsLoop now rest active (expired + 1)
      else statsLoop now rest (active + 1) expired)"

definition getStats :: "int \<Rightarrow> server \<Rightarrow> SessionStats" where
  "getStats now st =
     (let (active, expired) = statsLoop now (sessions st) 0 0
      in \<lparr>totalSessions = length (sessions st), activeSessions = active,
          expiredSessions = expired\<rparr>)"

section \<open>The \<open>request_session\<close> handler\<close>

fun latestLoop ::
  "(string \<times> SessionData) list \<Rightarrow> (string \<times> SessionData) option \<Rightarrow> (string \<times> SessionData) option" where
  "latestLoop [] latestSession = latestSession"
| "latestLoop ((sid, session) # rest) latestSession =
     latestLoop rest
       (case latestSession of
          None \<Rightarrow> Some (sid, session)
        | Some (lid, lsession) \<Rightarrow>
            if startTime session > startTime lsession then Some (sid, session)
            else Some (lid, lsession))"

definition request_session :: "server \<Rightarrow> message" where
  "request_session st =
     (case latestLoop (getAllSessions st) None of
        Some (sid, session) \<Rightarrow> session_assigned sid (workSummary session)
      | None \<Rightarrow> no_active_session)"

text \<open>
  \<open>POST /api/test-session\<close>: a session without \<open>resolve\<close> and \<open>reject\<close>. The id that
  \<open>generateSessionId\<close> returns and the clock are arguments; a missing or empty
  \<open>work_summary\<close> is answered with status 400 and stores nothing.
\<close>

definition api_test_session :: "string \<Rightarrow> int \<Rightarrow> string \<Rightarrow> int \<Rightarrow> server \<Rightarrow> server" where
  "api_test_session work_summary timeout_seconds sid now st =
     (if work_summary = [] then st
      else createSession sid
             \<lparr>workSummary = work_summary, feedback = length (arrays st), startTime = now,
                timeout = timeout_seconds * 1000, resolve = None, reject = None\<rparr>
             (st\<lparr>arrays := arrays st @ [Nil]\<rparr>))"

section \<open>Feedback bridge: \<open>WebServer\<close>\<close>

definition emit :: "message \<Rightarrow> server \<Rightarrow> server" where
  "emit m st = st\<lparr>effects := effects st @ [Emit m]\<rparr>"

text \<open>
  \<open>collectFeedback\<close>: a new promise, a new session that holds its \<open>resolve\<close> and
  \<open>reject\<close>, and a timer over \<open>timeoutSeconds * 1000\<close> milliseconds that captures the
  session id and \<open>reject\<close>. The result is the promise. (The \<open>catch\<close> after
  \<open>openFeedbackPage\<close> is not modelled: \<open>openFeedbackPage\<close> catches every error itself.)
\<close>

definition collectFeedback :: "string \<Rightarrow> int \<Rightarrow> string \<Rightarrow> int \<Rightarrow> server \<Rightarrow> nat \<times> server" where
  "collectFeedback summary timeoutSeconds sid now st =
     (let p = length (promises st);
          session = \<lparr>workSummary = summary, feedback = length (arrays st), startTime = now,
                      timeout = timeoutSeconds * 1000, resolve = Some p, reject = Some p\<rparr>;
          st1 = createSession sid session
                  (st\<lparr>arrays := arrays st @ [Nil], promises := promises st @ [None]\<rparr>)
      in (p, st1\<lparr>timers := timers st1 @ [(p, sid)]\<rparr>))"

text \<open>
  The timer of promise \<open>p\<close> fires: it deletes the session stored under the captured id
  and calls \<open>reject\<close>. Nothing in the source cancels this timer on a submission, a sweep or
  a shutdown.
\<close>

definition timerFires :: "nat \<Rightarrow> server \<Rightarrow> server" where
  "timerFires p st =
     (case map_of (timers st) p of
        None \<Rightarrow> st
      | Some sid \<Rightarrow>
          invoke p (Rejected FEEDBACK_TIMEOUT)
            (snd (deleteSession sid (st\<lparr>timers := AList.delete p (timers st)\<rparr>))))"

text \<open>
  \<open>handleFeedbackSubmission\<close>. Without images it runs to its end in one piece. With
  images it is suspended at \<open>await processImages\<close> holding the session object it read;
  \<open>imagesProcessed\<close> is its resumption, with the processed images or \<open>None\<close> when
  processing threw. \<open>completeSubmission\<close> is the common end: push, \<open>updateSession\<close>,
  acknowledge, and, when the session has a \<open>resolve\<close>, call it and delete the session.
\<close>

definition completeSubmission :: "SessionData \<Rightarrow> FeedbackData \<Rightarrow> server \<Rightarrow> server" where
  "completeSubmission session processedFeedback st =
     (let st1 = st\<lparr>arrays := (arrays st)[feedback session :=
                                  arrays st ! feedback session @ [processedFeedback]]\<rparr>;
          st2 = snd (updateSession (sessionId processedFeedback) (feedback session) st1);
          st3 = emit feedback_submitted st2
      in case resolve session of
           Some r \<Rightarrow>
             snd (deleteSession (sessionId processedFeedback)
                    (invoke r (Resolved (arrays st3 ! feedback session)) st3))
         | None \<Rightarrow> st3)"

definition noText :: "FeedbackData \<Rightarrow> bool" where
  "noText fb = (fbText fb = None \<or> fbText fb = Some [])"

definition noImages :: "FeedbackData \<Rightarrow> bool" where
  "noImages fb = (images fb = None \<or> images fb = Some [])"

definition handleFeedbackSubmission :: "FeedbackData \<Rightarrow> int \<Rightarrow> server \<Rightarrow> server" where
  "handleFeedbackSubmission feedbackData now st =
     (case getSession (sessionId feedbackData) now st of
        (None, st1) \<Rightarrow> emit (feedback_error ''Session does not exist or has expired'') st1
      | (Some session, st1) \<Rightarrow>
          if noText feedbackData \<and> noImages feedbackData
          then emit (feedback_error ''Please provide text feedback or upload images'') st1
          else if \<not> noImages feedbackData
          then st1\<lparr>awaiting := awaiting st1 @ [(session, feedbackData)]\<rparr>
          else completeSubmission session feedbackData st1)"

definition imagesProcessed :: "nat \<Rightarrow> string list option \<Rightarrow> server \<Rightarrow> server" where
  "imagesProcessed k processedImages st =
     (if k < length (awaiting st)
      then (let (session, feedbackData) = awaiting st ! k;
                st1 = st\<lparr>awaiting := take k (awaiting st) @ drop (Suc k) (awaiting st)\<rparr>
            in case processedImages of
                 None \<Rightarrow> emit (feedback_error ''Image processing failed'') st1
               | Some imgs \<Rightarrow> completeSubmission session (feedbackData\<lparr>images := Some imgs\<rparr>) st1)
      else st)"

definition get_work_summary :: "string \<Rightarrow> int \<Rightarrow> server \<Rightarrow> server" where
  "get_work_summary sid now st =
     (case getSession sid now st of
        (Some session, st1) \<Rightarrow> emit (work_summary_data (workSummary session)) st1
      | (None, st1) \<Rightarrow> emit (feedback_error ''Session does not exist or has expired'') st1)"

text \<open>
  \<open>stop\<close>. \<open>stopCalled\<close> is the part that runs in one piece, up to and including the call
  of \<open>server.close\<close>; \<open>httpClosed\<close> is the continuation after the close has answered.
\<close>

datatype closeResult = Closed | CloseError | CloseTimeout

definition stopCalled :: "server \<Rightarrow> server" where
  "stopCalled st =
     (if \<not> isServerRunning st then st
      else (let st1 = clear st;
                st2 = stopCleanupTimer st1
            in st2\<lparr>effects := effects st2 @ [DisconnectSockets, CloseIO, CloseHttp]\<rparr>))"

definition httpClosed :: "closeResult \<Rightarrow> server \<Rightarrow> server" where
  "httpClosed r st =
     (case r of
        Closed \<Rightarrow> st\<lparr>isServerRunning := False,
                      effects := effects st @ [WaitForPortRelease (listenPort st)]\<rparr>
      | CloseError \<Rightarrow> st
      | CloseTimeout \<Rightarrow> st)"

definition stop :: "closeResult \<Rightarrow> server \<Rightarrow> server" where
  "stop r st = (if \<not> isServerRunning st then st else httpClosed r (stopCalled st))"

section \<open>Everything that can happen to a server\<close>

text \<open>
  One event is one piece of code that the event loop runs without interruption. The
  values the code reads from outside (the clock, a generated session id, the result of
  image processing or of closing the listener) are arguments of the event. \<open>Started\<close> is
  a successful end of \<open>start\<close> on the given port.
\<close>

datatype event =
    Started int
  | CollectFeedback string int string int
  | TestSession string int string int
  | RequestSession
  | GetWorkSummary string int
  | SubmitFeedback FeedbackData int
  | ImagesProcessed nat "string list option"
  | TimerFires nat
  | CleanupTick int
  | StopCalled
  | HttpClosed closeResult

fun step :: "event \<Rightarrow> server \<Rightarrow> server" where
  "step (Started prt) st = st\<lparr>isServerRunning := True, listenPort := prt\<rparr>"
| "step (CollectFeedback summary timeoutSeconds sid now) st =
     snd (collectFeedback summary timeoutSeconds sid now st)"
| "step (TestSession summary timeoutSeconds sid now) st =
     api_test_session summary timeoutSeconds sid now st"
| "step RequestSession st = emit (request_session st) st"
| "step (GetWorkSummary sid now) st = get_work_summary sid now st"
| "step (SubmitFeedback feedbackData now) st = handleFeedbackSubmission feedbackData now st"
| "step (ImagesProcessed k processedImages) st = imagesProcessed k processedImages st"
| "step (TimerFires p) st = timerFires p st"
| "step (CleanupTick now) st =
     (if cleanupInterval st then snd (cleanupExpiredSessions now st) else st)"
| "step StopCalled st = stopCalled st"
| "step (HttpClosed r) st = httpClosed r st"

definition run :: "event list \<Rightarrow> server \<Rightarrow> server" where
  "run evs st = fold step evs st"

section \<open>Port negotiator\<close>

text \<open>
  The operating system is reached through four calls: binding a test listener
  (\<open>isPortAvailable\<close>), looking up the process that owns a port (\<open>getPortProcess\<close>),
  terminating a process (\<open>killProcess\<close>) and \<open>Math.random\<close>. The model keeps the list of
  the calls made so far; the answer to a call is a function of that list, so that an
  answer can depend on the moment of the call and on what the program did before (a
  port becomes free after a kill). \<open>canListen\<close> is false as well when the bind does not
  answer within the second \<open>isPortAvailable\<close> waits; \<open>portProcess\<close> is \<open>None\<close> as well
  when the inspection fails; \<open>randomPort\<close> is the value of
  \<open>Math.floor(Math.random() * (65535 - 1024) + 1024)\<close>, a number from 1024 to 65534.

  \<open>canListen\<close> answers for the port numbers \<open>listen\<close> accepts, 0 to 65535. For any
  other number \<open>listen\<close> throws a \<open>RangeError\<close> (\<open>ERR_SOCKET_BAD_PORT\<close>) before
  anything is bound, and \<open>isPortAvailable\<close> rejects with it. In \<open>findAvailablePort\<close> only
  the preferred port can be such a number, and the model has that branch at the first
  probe. \<open>forcePort\<close> is modelled for a port number from 0 to 65535.
\<close>

datatype syscall = Listen int | PortProcess int | KillProcess int bool | MathRandom | Sleep nat

record os =
  canListen :: "syscall list \<Rightarrow> int \<Rightarrow> bool"
  portProcess :: "syscall list \<Rightarrow> int \<Rightarrow> ProcessInfo option"
  killOk :: "syscall list \<Rightarrow> int \<Rightarrow> bool \<Rightarrow> bool"
  randomPort :: "syscall list \<Rightarrow> int"

definition PORT_RANGE_START :: int where
  "PORT_RANGE_START = 5000"

definition PORT_RANGE_END :: int where
  "PORT_RANGE_END = 5019"

definition MAX_RETRIES :: nat where
  "MAX_RETRIES = 20"

definition isPortAvailable :: "os \<Rightarrow> int \<Rightarrow> syscall list \<Rightarrow> bool \<times> syscall list" where
  "isPortAvailable env p h = (canListen env h p, h @ [Listen p])"

definition getPortProcess :: "os \<Rightarrow> int \<Rightarrow> syscall list \<Rightarrow> ProcessInfo option \<times> syscall list" where
  "getPortProcess env p h = (portProcess env h p, h @ [PortProcess p])"

definition killProcess :: "os \<Rightarrow> int \<Rightarrow> bool \<Rightarrow> syscall list \<Rightarrow> bool \<times> syscall list" where
  "killProcess env target force h = (killOk env h target force, h @ [KillProcess target force])"

text \<open>The loop over the range \<open>PORT_RANGE_START .. PORT_RANGE_END\<close>, from port \<open>p\<close> on.\<close>

function rangeLoop :: "os \<Rightarrow> int \<Rightarrow> syscall list \<Rightarrow> int option \<times> syscall list" where
  "rangeLoop env p h =
     (if p \<le> PORT_RANGE_END
      then (if fst (isPortAvailable env p h) then (Some p, snd (isPortAvailable env p h))
            else rangeLoop env (p + 1) (snd (isPortAvailable env p h)))
      else (None, h))"
  by pat_completeness auto
termination
  by (relation "measure (\<lambda>(env, p, h). nat (PORT_RANGE_END + 1 - p))") auto

text \<open>The loop over random ports, from try \<open>i\<close> on.\<close>

function randomLoop :: "os \<Rightarrow> nat \<Rightarrow> syscall list \<Rightarrow> int option \<times> syscall list" where
  "randomLoop env i h =
     (if i < MAX_RETRIES
      then (let r = randomPort env h; h1 = h @ [MathRandom]
            in if fst (isPortAvailable env r h1) then (Some r, snd (isPortAvailable env r h1))
               else randomLoop env (i + 1) (snd (isPortAvailable env r h1)))
      else (None, h))"
  by pat_completeness auto
termination
  by (relation "measure (\<lambda>(env, i, h). MAX_RETRIES - i)") auto

text \<open>
  \<open>if (preferredPort)\<close>: an absent preferred port and the number 0 both skip the first
  probe. A preferred port below 0 or above 65535 makes the first probe throw, and
  \<open>findAvailablePort\<close> with it.
\<close>

definition findAvailablePort ::
  "os \<Rightarrow> int option \<Rightarrow> syscall list \<Rightarrow> (errcode + int) \<times> syscall list" where
  "findAvailablePort env preferredPort h =
     (let (early, h0) =
            (case preferredPort of
               None \<Rightarrow> (None, h)
             | Some p \<Rightarrow>
                 if p \<noteq> 0
                 then (if p < 0 \<or> 65535 < p then (Some (Inl ERR_SOCKET_BAD_PORT), h)
                       else if fst (isPortAvailable env p h)
                       then (Some (Inr p), snd (isPortAvailable env p h))
                       else (None, snd (isPortAvailable env p h)))
                 else (None, h))
      in case early of
           Some r \<Rightarrow> (r, h0)
         | None \<Rightarrow>
             (case rangeLoop env PORT_RANGE_START h0 of
                (Some p, h1) \<Rightarrow> (Inr p, h1)
              | (None, h1) \<Rightarrow>
                  (case randomLoop env 0 h1 of
                     (Some p, h2) \<Rightarrow> (Inr p, h2)
                   | (None, h2) \<Rightarrow> (Inl NO_AVAILABLE_PORTS, h2))))"

text \<open>\<open>ProcessManager.forceReleasePort\<close>; it throws for an occupant that is not safe.\<close>

definition forceReleasePort :: "os \<Rightarrow> int \<Rightarrow> syscall list \<Rightarrow> (errcode + bool) \<times> syscall list" where
  "forceReleasePort env p h =
     (case getPortProcess env p h of
        (None, h1) \<Rightarrow> (Inr True, h1)
      | (Some processInfo, h1) \<Rightarrow>
          if \<not> isSafeToKill processInfo then (Inl UNSAFE_PROCESS_KILL, h1)
          else
            let (graceful, h2) = killProcess env (pid processInfo) False h1;
                (success, h3) =
                  (if \<not> graceful then killProcess env (pid processInfo) True (h2 @ [Sleep 2000])
                   else (graceful, h2))
            in if success
               then (case getPortProcess env p (h3 @ [Sleep 1000]) of
                       (None, h4) \<Rightarrow> (Inr True, h4)
                     | (Some stillOccupied, h4) \<Rightarrow> (Inr False, h4))
               else (Inr False, h3))"

definition forcePort :: "os \<Rightarrow> int \<Rightarrow> bool \<Rightarrow> syscall list \<Rightarrow> (errcode + int) \<times> syscall list" where
  "forcePort env p killProcessFlag h =
     (let (available, h1) = isPortAvailable env p h
      in if available then (Inr p, h1)
         else if \<not> killProcessFlag then (Inl PORT_OCCUPIED, h1)
         else (case forceReleasePort env p h1 of
                 (Inl e, h2) \<Rightarrow> (Inl e, h2)
               | (Inr released, h2) \<Rightarrow>
                   if \<not> released then (Inl PORT_FORCE_RELEASE_FAILED, h2)
                   else (let (finalCheck, h3) = isPortAvailable env p h2
                         in if \<not> finalCheck then (Inl PORT_STILL_OCCUPIED, h3)
                            else (Inr p, h3))))"

text \<open>Notions for the statements.\<close>

definition badPreferred :: "int option \<Rightarrow> bool" where
  "badPreferred preferredPort =
     (case preferredPort of None \<Rightarrow> False | Some p \<Rightarrow> p < 0 \<or> 65535 < p)"

definition preferredFree :: "os \<Rightarrow> int option \<Rightarrow> syscall list \<Rightarrow> bool" where
  "preferredFree env preferredPort h =
     (case preferredPort of
        None \<Rightarrow> False
      | Some p \<Rightarrow> 0 < p \<and> p \<le> 65535 \<and> canListen env h p)"

definition afterPreferred :: "int option \<Rightarrow> syscall list \<Rightarrow> syscall list" where
  "afterPreferred preferredPort h =
     (case preferredPort of None \<Rightarrow> h | Some p \<Rightarrow> if p \<noteq> 0 then h @ [Listen p] else h)"



definition draws :: "syscall list \<Rightarrow> nat" where
  "draws h = length (filter (\<lambda>c. c = MathRandom) h)"

definition staticOs :: "(int \<Rightarrow> bool) \<Rightarrow> os" where
  "staticOs free =
     \<lparr>canListen = (\<lambda>h p. free p), portProcess = (\<lambda>h p. None),
      killOk = (\<lambda>h target force. False), randomPort = (\<lambda>h. 1024 + int (length h))\<rparr>"

text \<open>
  The two kill attempts of \<open>forceReleasePort\<close>: a graceful one and, when it fails, a
  forced one two seconds later.
\<close>

definition killAttempt :: "os \<Rightarrow> int \<Rightarrow> syscall list \<Rightarrow> bool \<times> syscall list" where
  "killAttempt env target h =
     (if killOk env h target False then (True, h @ [KillProcess target False])
      else (killOk env (h @ [KillProcess target False, Sleep 2000]) target True,
            h @ [KillProcess target False, Sleep 2000, KillProcess target True]))"

text \<open>
  A machine on which one process \<open>occ\<close> holds every port until it is killed: a kill of
  its pid succeeds, and from then on every port can be bound and has no owner.
\<close>

definition occupiedOs :: "ProcessInfo \<Rightarrow> os" where
  "occupiedOs occ =
     \<lparr>canListen = (\<lambda>h p. \<exists>c \<in> set h. c = KillProcess (pid occ) False \<or> c = KillProcess (pid occ) True),
      portProcess = (\<lambda>h p. if \<exists>c \<in> set h. c = KillProcess (pid occ) False \<or> c = KillProcess (pid occ) True
                             then None else Some occ),
      killOk = (\<lambda>h target force. target = pid occ),
      randomPort = (\<lambda>h. 1024)\<rparr>"

text \<open>
  A machine on which the process \<open>occ\<close> keeps its port although every kill reports
  success.
\<close>

definition stubbornOs :: "ProcessInfo \<Rightarrow> os" where
  "stubbornOs occ =
     \<lparr>canListen = (\<lambda>h p. False), portProcess = (\<lambda>h p. Some occ),
      killOk = (\<lambda>h target force. True), randomPort = (\<lambda>h. 1024)\<rparr>"

section \<open>Notions used to state the results\<close>

text \<open>The calls of \<open>reject\<close> a sweep at time \<open>now\<close> makes over the entries \<open>es\<close>, in order.\<close>

definition timeoutCalls :: "int \<Rightarrow> (string \<times> SessionData) list \<Rightarrow> effect list" where
  "timeoutCalls now es =
     concat (map (\<lambda>(sid, s). if startTime s + timeout s < now
                              then (case reject s of
                                      Some r \<Rightarrow> [Invoke r (Rejected SESSION_TIMEOUT)]
                                    | None \<Rightarrow> [])
                              else []) es)"

text \<open>The calls of the \<open>resolve\<close> and \<open>reject\<close> functions of promise \<open>p\<close> so far, in order.\<close>

fun callsOf :: "nat \<Rightarrow> effect list \<Rightarrow> outcome list" where
  "callsOf p [] = []"
| "callsOf p (Invoke q oc # es) = (if q = p then oc # callsOf p es else callsOf p es)"
| "callsOf p (e # es) = callsOf p es"

definition invocations :: "nat \<Rightarrow> server \<Rightarrow> outcome list" where
  "invocations p st = callsOf p (effects st)"

text \<open>The calls of \<open>reject\<close> a shutdown makes over the entries \<open>es\<close>, in order.\<close>

definition shutdownCalls :: "(string \<times> SessionData) list \<Rightarrow> effect list" where
  "shutdownCalls es =
     concat (map (\<lambda>(sid, s). case reject s of
                                Some r \<Rightarrow> [Invoke r (Rejected SERVER_SHUTDOWN)]
                              | None \<Rightarrow> []) es)"

text \<open>
  What holds of the promises in every state a server can reach (\<open>inv0\<close>), and what
  holds in addition of the promise of a session while the session is stored
  (\<open>storedOk\<close>).
\<close>

definition inv0 :: "server \<Rightarrow> bool" where
  "inv0 st \<longleftrightarrow>
     distinct (map fst (sessions st))
   \<and> (\<forall>p < length (promises st).
        promises st ! p = (case invocations p st of [] \<Rightarrow> None | first # later \<Rightarrow> Some first))
   \<and> (\<forall>p < length (promises st). map_of (timers st) p = None \<longrightarrow> invocations p st \<noteq> [])
   \<and> (\<forall>p sid. map_of (timers st) p = Some sid \<longrightarrow> p < length (promises st))
   \<and> (\<forall>s fb p. (s, fb) \<in> set (awaiting st) \<and> resolve s = Some p \<longrightarrow>
         p < length (promises st) \<and>
         (map_of (timers st) p = None \<or> map_of (timers st) p = Some (sessionId fb)))
   \<and> (\<forall>q oc. Invoke q oc \<in> set (effects st) \<longrightarrow> q < length (promises st))"

definition storedOk :: "server \<Rightarrow> bool" where
  "storedOk st \<longleftrightarrow>
     (\<forall>sid s p. (sid, s) \<in> set (sessions st) \<and> (resolve s = Some p \<or> reject s = Some p) \<longrightarrow>
        p < length (promises st) \<and> invocations p st = [] \<and> map_of (timers st) p = Some sid)"

text \<open>A later state: more has been done, and no promise has been forgotten.\<close>

definition continues :: "server \<Rightarrow> server \<Rightarrow> bool" where
  "continues st st' \<longleftrightarrow>
     prefix (effects st) (effects st') \<and> length (promises st) \<le> length (promises st')"

section \<open>Facts about the string functions\<close>

lemma startsWith_prefix: "startsWith hay needle \<longleftrightarrow> prefix needle hay"
  by (induction hay needle rule: startsWith.induct) auto

lemma str_includes_sublist: "str_includes hay needle \<longleftrightarrow> sublist needle hay"
  by (induction hay) (auto simp: startsWith_prefix sublist_Cons_right)

lemma str_includes_middle: "str_includes (pre @ w @ post) w"
  by (simp add: str_includes_sublist)

lemma toLowerCase_append: "toLowerCase (a @ b) = toLowerCase a @ toLowerCase b"
  by (simp add: toLowerCase_def)

lemma of_char_toLowerChar:
  "(of_char (toLowerChar c) :: nat) =
     (if 65 \<le> (of_char c :: nat) \<and> (of_char c :: nat) \<le> 90 then of_char c + 32 else of_char c)"
  by (cases c) (auto simp: toLowerChar_def of_char_def)

lemma matchesAny_iff:
  "matchesAny n c ws \<longleftrightarrow> (\<exists>w \<in> set ws. str_includes n w \<or> str_includes c w)"
  by (induction ws) auto

lemma isSafeToKill_iff:
  "isSafeToKill p \<longleftrightarrow>
     \<not> matchesAny (toLowerCase (name p)) (toLowerCase (command p)) dangerousNames \<and>
     matchesAny (toLowerCase (name p)) (toLowerCase (command p)) safePrefixes"
  by (simp add: isSafeToKill_def Let_def)

section \<open>The classifier fails closed\<close>

text \<open>
  C5. An occupant whose lowered name and lowered command line contain no word of the
  deny list and no word of the allow list is not safe to terminate: the classifier
  answers false on input it does not recognise.
\<close>

theorem isSafeToKill_unknown_denied:
  assumes "\<forall>d \<in> set dangerousNames.
             \<not> str_includes (toLowerCase (name p)) d \<and> \<not> str_includes (toLowerCase (command p)) d"
    and "\<forall>s \<in> set safePrefixes.
             \<not> str_includes (toLowerCase (name p)) s \<and> \<not> str_includes (toLowerCase (command p)) s"
  shows "isSafeToKill p = False"
  using assms by (simp add: isSafeToKill_iff matchesAny_iff)

theorem isSafeToKill_unknown_denied_witness:
  "isSafeToKill \<lparr>pid = 812, name = ''sshd'', command = ''/usr/sbin/sshd -D'', port = Some 5000\<rparr>
     = False"
  by (rule isSafeToKill_unknown_denied)
     (simp_all add: dangerousNames_def safePrefixes_def toLowerCase_def toLowerChar_def)

text \<open>
  C10. The deny list is consulted first. When the name or the command line contains,
  in any letter case, a word of the deny list as a substring, the occupant is not safe
  to terminate, whatever words of the allow list it contains as well.
\<close>

theorem isSafeToKill_deny_first:
  assumes "d \<in> set dangerousNames"
    and "toLowerCase v = d"
    and "name p = pre @ v @ post \<or> command p = pre @ v @ post"
  shows "isSafeToKill p = False"
proof -
  have "str_includes (toLowerCase (pre @ v @ post)) d"
    using assms(2) by (simp add: toLowerCase_append str_includes_middle)
  then have "str_includes (toLowerCase (name p)) d \<or> str_includes (toLowerCase (command p)) d"
    using assms(3) by auto
  then have "matchesAny (toLowerCase (name p)) (toLowerCase (command p)) dangerousNames"
    using assms(1) by (auto simp: matchesAny_iff)
  then show ?thesis
    by (simp add: isSafeToKill_iff)
qed

theorem isSafeToKill_deny_first_witness:
  "''systemd'' \<in> set dangerousNames \<and> toLowerCase ''SystemD'' = ''systemd'' \<and>
   matchesAny (toLowerCase ''Node'') (toLowerCase ''/usr/bin/node SystemD-helper'') safePrefixes \<and>
   isSafeToKill \<lparr>pid = 77, name = ''Node'', command = ''/usr/bin/node SystemD-helper'',
                  port = None\<rparr> = False"
proof -
  have d: "''systemd'' \<in> set dangerousNames"
    by (simp add: dangerousNames_def)
  have l: "toLowerCase ''SystemD'' = ''systemd''"
    by (simp add: toLowerCase_def toLowerChar_def)
  have c: "name \<lparr>pid = 77, name = ''Node'', command = ''/usr/bin/node SystemD-helper'',
                   port = None\<rparr> = ''/usr/bin/node '' @ ''SystemD'' @ ''-helper''
         \<or> command \<lparr>pid = 77, name = ''Node'', command = ''/usr/bin/node SystemD-helper'',
                   port = None\<rparr> = ''/usr/bin/node '' @ ''SystemD'' @ ''-helper''"
    by simp
  have a: "matchesAny (toLowerCase ''Node'') (toLowerCase ''/usr/bin/node SystemD-helper'')
             safePrefixes"
    by (simp add: safePrefixes_def toLowerCase_def toLowerChar_def)
  show ?thesis
    using isSafeToKill_deny_first [OF d l c] d l a by simp
qed


section \<open>Session storage\<close>

lemma sessions_invoke [simp]: "sessions (invoke p oc st) = sessions st"
  by (simp add: invoke_def)

lemma effects_invoke [simp]: "effects (invoke p oc st) = effects st @ [Invoke p oc]"
  by (simp add: invoke_def)

lemma sessions_deleteSession [simp]:
  "sessions (snd (deleteSession sid st)) = AList.delete sid (sessions st)"
  by (simp add: deleteSession_def)

lemma effects_deleteSession [simp]: "effects (snd (deleteSession sid st)) = effects st"
  by (simp add: deleteSession_def)

lemma promises_deleteSession [simp]: "promises (snd (deleteSession sid st)) = promises st"
  by (simp add: deleteSession_def)

lemma cleanupLoop_count:
  "fst (cleanupLoop now es n st) = n + length (filter (\<lambda>(sid, s). startTime s + timeout s < now) es)"
  by (induction es arbitrary: n st) (auto simp: Let_def)

lemma cleanupLoop_effects:
  "effects (snd (cleanupLoop now es n st)) = effects st @ timeoutCalls now es"
  by (induction es arbitrary: n st) (auto simp: Let_def timeoutCalls_def split: option.splits)

lemma cleanupLoop_sessions:
  "sessions (snd (cleanupLoop now es n st)) =
     filter (\<lambda>(sid, s). sid \<notin> fst ` {e \<in> set es. startTime (snd e) + timeout (snd e) < now}) (sessions st)"
proof (induction es arbitrary: n st)
  case Nil
  then show ?case by simp
next
  case (Cons e es)
  obtain sid s where e: "e = (sid, s)" by (cases e)
  show ?case
  proof (cases "startTime s + timeout s < now")
    case True
    then have "now - startTime s > timeout s" by simp
    then show ?thesis
      using True unfolding e
      apply (simp add: Let_def Cons.IH AList.delete_eq split: option.splits)
      apply (intro conjI impI allI filter_cong refl)
      apply (auto simp: image_iff)
      done
  next
    case False
    then have "\<not> now - startTime s > timeout s" by simp
    then show ?thesis
      using False unfolding e
      apply (simp add: Cons.IH)
      apply (intro filter_cong refl)
      apply (auto simp: image_iff)
      done
  qed
qed

lemma distinct_keys_filter:
  assumes "distinct (map fst es)"
  shows "filter (\<lambda>(sid, s). sid \<notin> fst ` {e \<in> set es. P (snd e)}) es = filter (\<lambda>(sid, s). \<not> P s) es"
proof (rule filter_cong [OF refl])
  fix e assume m: "e \<in> set es"
  obtain sid s where e: "e = (sid, s)" by (cases e)
  have "sid \<in> fst ` {e \<in> set es. P (snd e)} \<longleftrightarrow> P s"
  proof
    assume "sid \<in> fst ` {e \<in> set es. P (snd e)}"
    then obtain s' where s': "(sid, s') \<in> set es" "P s'" by auto
    from assms m s'(1) have "s' = s" unfolding e by (meson eq_key_imp_eq_value)
    with s'(2) show "P s" by simp
  next
    assume "P s" with m show "sid \<in> fst ` {e \<in> set es. P (snd e)}" unfolding e by force
  qed
  then show "(case e of (sid, s) \<Rightarrow> sid \<notin> fst ` {e \<in> set es. P (snd e)}) = (case e of (sid, s) \<Rightarrow> \<not> P s)"
    unfolding e by simp
qed

text \<open>
  C3 (as amended). A sweep at time \<open>now\<close> evicts exactly the stored sessions whose
  deadline \<open>startTime + timeout\<close> lies strictly before \<open>now\<close>: it returns their number,
  removes them and only them from the table, and calls \<open>reject\<close> with a
  \<open>SESSION_TIMEOUT\<close> error once for each of them that has a \<open>reject\<close>, in table order. A
  session is therefore kept by every sweep up to and including its deadline and evicted
  by every later one.
\<close>

theorem cleanupExpiredSessions_strict:
  assumes "distinct (map fst (sessions st))"
  shows "fst (cleanupExpiredSessions now st)
           = length (filter (\<lambda>(sid, s). startTime s + timeout s < now) (sessions st))
       \<and> sessions (snd (cleanupExpiredSessions now st))
           = filter (\<lambda>(sid, s). \<not> startTime s + timeout s < now) (sessions st)
       \<and> effects (snd (cleanupExpiredSessions now st))
           = effects st @ timeoutCalls now (sessions st)"
  using distinct_keys_filter [OF assms, of "\<lambda>s. startTime s + timeout s < now"]
  by (simp add: cleanupExpiredSessions_def cleanupLoop_count cleanupLoop_effects cleanupLoop_sessions)

text \<open>
  A sweep that runs exactly at the deadline (\<open>now = startTime + timeout\<close>) evicts nothing.
\<close>

theorem cleanupExpiredSessions_deadline_counterexample:
  "cleanupExpiredSessions 1000 (run [TestSession ''did Y'' 1 ''s2'' 0] newServer)
     = (0, run [TestSession ''did Y'' 1 ''s2'' 0] newServer)
   \<and> map_of (sessions (run [TestSession ''did Y'' 1 ''s2'' 0] newServer)) ''s2''
     = Some \<lparr>workSummary = ''did Y'', feedback = 0, startTime = 0, timeout = 1000,
              resolve = None, reject = None\<rparr>"
  by (simp add: cleanupExpiredSessions_def run_def api_test_session_def createSession_def
        newServer_def)

theorem cleanupExpiredSessions_strict_witness:
  "fst (cleanupExpiredSessions 1001 (run [CollectFeedback ''did Y'' 1 ''s2'' 0] newServer)) = 1
   \<and> sessions (snd (cleanupExpiredSessions 1001
                      (run [CollectFeedback ''did Y'' 1 ''s2'' 0] newServer))) = []
   \<and> effects (snd (cleanupExpiredSessions 1001
                      (run [CollectFeedback ''did Y'' 1 ''s2'' 0] newServer)))
       = [Invoke 0 (Rejected SESSION_TIMEOUT)]"
proof -
  have st: "run [CollectFeedback ''did Y'' 1 ''s2'' 0] newServer
      = \<lparr>sessions = [(''s2'', \<lparr>workSummary = ''did Y'', feedback = 0, startTime = 0,
                       timeout = 1000, resolve = Some 0, reject = Some 0\<rparr>)],
         arrays = [Nil], promises = [None], timers = [(0, ''s2'')], awaiting = [],
         cleanupInterval = True, isServerRunning = False, listenPort = 0, effects = []\<rparr>"
    by (simp add: run_def newServer_def collectFeedback_def createSession_def Let_def)
  have d: "distinct (map fst (sessions (run [CollectFeedback ''did Y'' 1 ''s2'' 0] newServer)))"
    by (simp add: st)
  show ?thesis
    using cleanupExpiredSessions_strict [OF d, of 1001]
    by (simp add: st timeoutCalls_def)
qed

text \<open>
  C4. For a stored session whose deadline has passed (\<open>startTime + timeout < now\<close>),
  \<open>getSession\<close> answers \<open>undefined\<close> and the session is no longer in the table
  afterwards, whether or not a sweep has run. For a stored session whose deadline has
  not passed, \<open>getSession\<close> returns the session and leaves the state as it was.
\<close>

theorem getSession_lazy_expiry:
  assumes "map_of (sessions st) sid = Some s"
  shows "(startTime s + timeout s < now \<longrightarrow>
            fst (getSession sid now st) = None
          \<and> map_of (sessions (snd (getSession sid now st))) sid = None)
       \<and> (\<not> startTime s + timeout s < now \<longrightarrow> getSession sid now st = (Some s, st))"
proof -
  have "startTime s + timeout s < now \<longleftrightarrow> now - startTime s > timeout s"
    by auto
  then show ?thesis
    using assms by (simp add: getSession_def AList.delete_conv')
qed

theorem getSession_lazy_expiry_witness:
  "fst (getSession ''s2'' 2000
     (createSession ''s2''
        \<lparr>workSummary = ''did Y'', feedback = 0, startTime = 0, timeout = 1000,
           resolve = None, reject = None\<rparr> newServer)) = None
   \<and> map_of (sessions (snd (getSession ''s2'' 2000
     (createSession ''s2''
        \<lparr>workSummary = ''did Y'', feedback = 0, startTime = 0, timeout = 1000,
           resolve = None, reject = None\<rparr> newServer)))) ''s2'' = None
   \<and> getSession ''s2'' 1000
     (createSession ''s2''
        \<lparr>workSummary = ''did Y'', feedback = 0, startTime = 0, timeout = 1000,
           resolve = None, reject = None\<rparr> newServer)
     = (Some \<lparr>workSummary = ''did Y'', feedback = 0, startTime = 0, timeout = 1000,
           resolve = None, reject = None\<rparr>,
        createSession ''s2''
        \<lparr>workSummary = ''did Y'', feedback = 0, startTime = 0, timeout = 1000,
           resolve = None, reject = None\<rparr> newServer)"
proof -
  have m: "map_of (sessions (createSession ''s2''
        \<lparr>workSummary = ''did Y'', feedback = 0, startTime = 0, timeout = 1000,
           resolve = None, reject = None\<rparr> newServer)) ''s2''
     = Some \<lparr>workSummary = ''did Y'', feedback = 0, startTime = 0, timeout = 1000,
           resolve = None, reject = None\<rparr>"
    by (simp add: createSession_def newServer_def)
  show ?thesis
    using getSession_lazy_expiry [OF m, of 2000] getSession_lazy_expiry [OF m, of 1000]
    by simp
qed

text \<open>
  C2 (as amended). \<open>createSession\<close> has no failure: it stores the data under the id,
  replacing whatever session was stored under that id, and checks neither the id nor
  the timeout. It calls no continuation and touches no timer.
\<close>

theorem createSession_overwrites:
  "map_of (sessions (createSession sid data st)) = (map_of (sessions st))(sid \<mapsto> data)
   \<and> promises (createSession sid data st) = promises st
   \<and> effects (createSession sid data st) = effects st
   \<and> timers (createSession sid data st) = timers st"
  by (simp add: createSession_def AList.update_conv')

text \<open>
  A second \<open>createSession\<close> under an id in use, with a timeout of 5 seconds, replaces
  the stored session.
\<close>

theorem createSession_duplicate_counterexample:
  "map_of (sessions
     (createSession ''s1''
        \<lparr>workSummary = ''second'', feedback = 1, startTime = 7, timeout = 5000,
           resolve = Some 1, reject = Some 1\<rparr>
     (createSession ''s1''
        \<lparr>workSummary = ''first'', feedback = 0, startTime = 3, timeout = 20000,
           resolve = Some 0, reject = Some 0\<rparr>
        (newServer\<lparr>arrays := [Nil, Nil], promises := [None, None]\<rparr>)))) ''s1''
   = Some \<lparr>workSummary = ''second'', feedback = 1, startTime = 7, timeout = 5000,
           resolve = Some 1, reject = Some 1\<rparr>"
  by (simp add: createSession_def newServer_def)

lemma latestLoop_Some: "\<exists>l. latestLoop es (Some e) = Some l"
  by (induction es arbitrary: e) (auto split: prod.splits)

lemma latestLoop_None_iff: "latestLoop es None = None \<longleftrightarrow> es = []"
proof (cases es)
  case Nil
  then show ?thesis by simp
next
  case (Cons e es')
  obtain sid s where "e = (sid, s)" by (cases e)
  with Cons latestLoop_Some [of es' e] show ?thesis by auto
qed

lemma request_session_no_active_iff:
  "request_session st = no_active_session \<longleftrightarrow> sessions st = []"
  using latestLoop_None_iff [of "sessions st"]
  by (auto simp: request_session_def getAllSessions_def split: option.splits prod.splits)

section \<open>Port negotiator: finding and forcing a port\<close>

declare rangeLoop.simps [simp del] randomLoop.simps [simp del]




lemma draws_append [simp]: "draws (a @ b) = draws a + draws b"
  by (simp add: draws_def)

lemma draws_Listen [simp]: "draws (map Listen ps) = 0"
  by (induction ps) (auto simp: draws_def)

lemma draws_Nil [simp]: "draws [] = 0"
  by (simp add: draws_def)

lemma draws_Cons [simp]: "draws (c # cs) = (if c = MathRandom then 1 else 0) + draws cs"
  by (simp add: draws_def)


lemma randomLoop_never:
  "(\<forall>hh p. \<not> canListen env hh p) \<Longrightarrow> fst (randomLoop env i h) = None"
proof (induction env i h rule: randomLoop.induct)
  case (1 env i h)
  show ?case
  proof (cases "i < MAX_RETRIES")
    case False
    then show ?thesis by (subst randomLoop.simps) simp
  next
    case True
    have "randomLoop env i h = randomLoop env (i + 1) (snd (isPortAvailable env (randomPort env h) (h @ [MathRandom])))"
      using True "1.prems" by (subst randomLoop.simps) (simp add: isPortAvailable_def Let_def)
    moreover have "fst (randomLoop env (i + 1) (snd (isPortAvailable env (randomPort env h) (h @ [MathRandom])))) = None"
      using "1.IH" [OF True refl refl _ "1.prems"] "1.prems" by (simp add: isPortAvailable_def)
    ultimately show ?thesis by simp
  qed
qed

lemma rangeLoop_never:
  "(\<forall>hh p. \<not> canListen env hh p) \<Longrightarrow> fst (rangeLoop env p h) = None"
proof (induction env p h rule: rangeLoop.induct)
  case (1 env p h)
  show ?case
  proof (cases "p \<le> PORT_RANGE_END")
    case False
    then show ?thesis by (subst rangeLoop.simps) simp
  next
    case True
    have "rangeLoop env p h = rangeLoop env (p + 1) (snd (isPortAvailable env p h))"
      using True "1.prems" by (subst rangeLoop.simps) (simp add: isPortAvailable_def)
    moreover have "fst (rangeLoop env (p + 1) (snd (isPortAvailable env p h))) = None"
      using "1.IH" [OF True _ "1.prems"] "1.prems" by (simp add: isPortAvailable_def)
    ultimately show ?thesis by simp
  qed
qed










lemma findAvailablePort_fallback:
  "\<not> badPreferred pref \<Longrightarrow> \<not> preferredFree env pref h \<Longrightarrow>
     findAvailablePort env pref h =
       (case rangeLoop env PORT_RANGE_START (afterPreferred pref h) of
          (Some p, h1) \<Rightarrow> (Inr p, h1)
        | (None, h1) \<Rightarrow>
            (case randomLoop env 0 h1 of
               (Some p, h2) \<Rightarrow> (Inr p, h2)
             | (None, h2) \<Rightarrow> (Inl NO_AVAILABLE_PORTS, h2)))"
  by (auto simp: findAvailablePort_def preferredFree_def badPreferred_def afterPreferred_def
                 isPortAvailable_def
           split: option.splits)

lemma draws_afterPreferred [simp]: "draws (afterPreferred pref h) = draws h"
  by (simp add: afterPreferred_def split: option.splits)




lemma findAvailablePort_never:
  assumes "\<not> badPreferred pref" and "\<forall>hh p. \<not> canListen env hh p"
  shows "fst (findAvailablePort env pref h) = Inl NO_AVAILABLE_PORTS"
proof -
  have np: "\<not> preferredFree env pref h"
    using assms(2) by (simp add: preferredFree_def split: option.splits)
  obtain r1 h1 where r1: "rangeLoop env PORT_RANGE_START (afterPreferred pref h) = (r1, h1)"
    by (cases "rangeLoop env PORT_RANGE_START (afterPreferred pref h)")
  obtain r2 h2 where r2: "randomLoop env 0 h1 = (r2, h2)"
    by (cases "randomLoop env 0 h1")
  have "r1 = None"
    using rangeLoop_never [OF assms(2), of PORT_RANGE_START "afterPreferred pref h"] r1 by simp
  moreover have "r2 = None" using randomLoop_never [OF assms(2), of 0 h1] r2 by simp
  ultimately show ?thesis
    using findAvailablePort_fallback [OF assms(1) np] r1 r2 by simp
qed



lemma forceReleasePort_cases:
  "forceReleasePort env p h =
     (case portProcess env h p of
        None \<Rightarrow> (Inr True, h @ [PortProcess p])
      | Some occ \<Rightarrow>
          if \<not> isSafeToKill occ then (Inl UNSAFE_PROCESS_KILL, h @ [PortProcess p])
          else if \<not> fst (killAttempt env (pid occ) (h @ [PortProcess p]))
               then (Inr False, snd (killAttempt env (pid occ) (h @ [PortProcess p])))
               else (Inr (portProcess env (snd (killAttempt env (pid occ) (h @ [PortProcess p])) @ [Sleep 1000]) p = None),
                     snd (killAttempt env (pid occ) (h @ [PortProcess p])) @ [Sleep 1000, PortProcess p]))"
  by (auto simp: forceReleasePort_def getPortProcess_def killProcess_def killAttempt_def
           split: option.splits)

text \<open>
  C7 (as amended). \<open>forcePort\<close> returns the port after one probe when it is free, and
  fails with \<open>PORT_OCCUPIED\<close> when it is occupied and killing is not allowed. When killing
  is allowed: an identified occupant that is not safe makes it fail with
  \<open>UNSAFE_PROCESS_KILL\<close> before any kill; a safe occupant is killed (gracefully, then by
  force), and the call fails with \<open>PORT_FORCE_RELEASE_FAILED\<close> when both kills fail or
  when an owner of the port is still found a second later; when the owner is gone, or
  when no occupant was identified in the first place, the port is probed again and the
  call fails with \<open>PORT_STILL_OCCUPIED\<close> if that probe fails and returns the port
  otherwise.
\<close>

theorem forcePort_outcomes:
  "(canListen env h p \<longrightarrow> forcePort env p allowKill h = (Inr p, h @ [Listen p]))
   \<and> (\<not> canListen env h p \<and> \<not> allowKill \<longrightarrow>
        forcePort env p allowKill h = (Inl PORT_OCCUPIED, h @ [Listen p]))
   \<and> (\<not> canListen env h p \<and> allowKill \<and> portProcess env (h @ [Listen p]) p = Some occ \<and>
      \<not> isSafeToKill occ \<longrightarrow>
        forcePort env p allowKill h = (Inl UNSAFE_PROCESS_KILL, h @ [Listen p, PortProcess p]))
   \<and> (\<not> canListen env h p \<and> allowKill \<and> portProcess env (h @ [Listen p]) p = Some occ \<and>
      isSafeToKill occ \<and> killAttempt env (pid occ) (h @ [Listen p, PortProcess p]) = (ok, h3) \<longrightarrow>
        forcePort env p allowKill h =
          (if \<not> ok then (Inl PORT_FORCE_RELEASE_FAILED, h3)
           else if portProcess env (h3 @ [Sleep 1000]) p \<noteq> None
                then (Inl PORT_FORCE_RELEASE_FAILED, h3 @ [Sleep 1000, PortProcess p])
           else if \<not> canListen env (h3 @ [Sleep 1000, PortProcess p]) p
                then (Inl PORT_STILL_OCCUPIED, h3 @ [Sleep 1000, PortProcess p, Listen p])
           else (Inr p, h3 @ [Sleep 1000, PortProcess p, Listen p])))
   \<and> (\<not> canListen env h p \<and> allowKill \<and> portProcess env (h @ [Listen p]) p = None \<longrightarrow>
        forcePort env p allowKill h =
          (if \<not> canListen env (h @ [Listen p, PortProcess p]) p
           then (Inl PORT_STILL_OCCUPIED, h @ [Listen p, PortProcess p, Listen p])
           else (Inr p, h @ [Listen p, PortProcess p, Listen p])))"
  by (simp add: forcePort_def isPortAvailable_def forceReleasePort_cases)


text \<open>
  A safe occupant that survives a kill reported as successful: the port is still bound,
  and the error is \<open>PORT_FORCE_RELEASE_FAILED\<close>, not \<open>PORT_STILL_OCCUPIED\<close>.
\<close>

theorem forcePort_still_bound_counterexample:
  "isSafeToKill \<lparr>pid = 4242, name = ''node'', command = ''node server.js'', port = Some 5000\<rparr>
   \<and> forcePort (stubbornOs \<lparr>pid = 4242, name = ''node'', command = ''node server.js'',
                              port = Some 5000\<rparr>) 5000 True []
       = (Inl PORT_FORCE_RELEASE_FAILED,
          [Listen 5000, PortProcess 5000, KillProcess 4242 False, Sleep 1000, PortProcess 5000])"
  by (simp add: forcePort_def isPortAvailable_def forceReleasePort_def getPortProcess_def
        killProcess_def stubbornOs_def isSafeToKill_def dangerousNames_def safePrefixes_def
        toLowerCase_def toLowerChar_def)

theorem forcePort_outcomes_witness:
  "forcePort (occupiedOs \<lparr>pid = 4242, name = ''node'', command = ''node server.js'',
                            port = Some 5000\<rparr>) 5000 True []
     = (Inr 5000, [Listen 5000, PortProcess 5000, KillProcess 4242 False, Sleep 1000,
                   PortProcess 5000, Listen 5000])
   \<and> forcePort (occupiedOs \<lparr>pid = 4242, name = ''node'', command = ''node server.js'',
                            port = Some 5000\<rparr>) 5000 False []
     = (Inl PORT_OCCUPIED, [Listen 5000])
   \<and> forcePort (occupiedOs \<lparr>pid = 812, name = ''sshd'', command = ''/usr/sbin/sshd -D'',
                            port = Some 5000\<rparr>) 5000 True []
     = (Inl UNSAFE_PROCESS_KILL, [Listen 5000, PortProcess 5000])
   \<and> forcePort (staticOs (\<lambda>p. True)) 5000 False [] = (Inr 5000, [Listen 5000])
   \<and> forcePort (staticOs (\<lambda>p. False)) 5000 True []
     = (Inl PORT_STILL_OCCUPIED, [Listen 5000, PortProcess 5000, Listen 5000])"
proof -
  let ?node = "\<lparr>pid = 4242, name = ''node'', command = ''node server.js'', port = Some 5000\<rparr>"
  let ?sshd = "\<lparr>pid = 812, name = ''sshd'', command = ''/usr/sbin/sshd -D'', port = Some 5000\<rparr>"
  have safe: "isSafeToKill ?node"
    by (simp add: isSafeToKill_def dangerousNames_def safePrefixes_def toLowerCase_def
          toLowerChar_def)
  have unsafe: "\<not> isSafeToKill ?sshd"
    by (simp add: isSafeToKill_def dangerousNames_def safePrefixes_def toLowerCase_def
          toLowerChar_def)
  have a: "forcePort (occupiedOs ?node) 5000 True []
     = (Inr 5000, [Listen 5000, PortProcess 5000, KillProcess 4242 False, Sleep 1000,
                   PortProcess 5000, Listen 5000])"
    using forcePort_outcomes [of "occupiedOs ?node" "[]" 5000 True ?node True
        "[Listen 5000, PortProcess 5000, KillProcess 4242 False]"] safe
    by (simp add: occupiedOs_def killAttempt_def)
  have b: "forcePort (occupiedOs ?node) 5000 False [] = (Inl PORT_OCCUPIED, [Listen 5000])"
    using forcePort_outcomes [of "occupiedOs ?node" "[]" 5000 False]
    by (simp add: occupiedOs_def)
  have c: "forcePort (occupiedOs ?sshd) 5000 True []
     = (Inl UNSAFE_PROCESS_KILL, [Listen 5000, PortProcess 5000])"
    using forcePort_outcomes [of "occupiedOs ?sshd" "[]" 5000 True ?sshd] unsafe
    by (simp add: occupiedOs_def)
  have d: "forcePort (staticOs (\<lambda>p. True)) 5000 False [] = (Inr 5000, [Listen 5000])"
    using forcePort_outcomes [of "staticOs (\<lambda>p. True)" "[]" 5000 False]
    by (simp add: staticOs_def)
  have e: "forcePort (staticOs (\<lambda>p. False)) 5000 True []
     = (Inl PORT_STILL_OCCUPIED, [Listen 5000, PortProcess 5000, Listen 5000])"
    using forcePort_outcomes [of "staticOs (\<lambda>p. False)" "[]" 5000 True]
    by (simp add: staticOs_def)
  from a b c d e show ?thesis by simp
qed

text \<open>Whatever the machine answers, \<open>forcePort\<close> kills only an occupant classified as safe.\<close>

lemma forcePort_kills_only_safe:
  assumes "forcePort env p allowKill h = (res, h')"
    and "KillProcess target force \<in> set h'" and "KillProcess target force \<notin> set h"
  shows "allowKill \<and> (\<exists>occ. portProcess env (h @ [Listen p]) p = Some occ \<and> isSafeToKill occ
                             \<and> pid occ = target)"
  using assms
  by (auto simp: forcePort_def isPortAvailable_def forceReleasePort_cases killAttempt_def
           split: if_splits option.splits)

section \<open>Promises are settled by the first call\<close>

lemma callsOf_append [simp]: "callsOf p (a @ b) = callsOf p a @ callsOf p b"
  by (induction p a rule: callsOf.induct) auto

lemma callsOf_empty_iff: "callsOf p es = [] \<longleftrightarrow> (\<forall>oc. Invoke p oc \<notin> set es)"
  by (induction p es rule: callsOf.induct) auto

lemma invocations_invoke [simp]:
  "invocations p (invoke q oc st) = invocations p st @ (if q = p then [oc] else [])"
  by (simp add: invocations_def)

lemma invocations_emit [simp]: "invocations p (emit m st) = invocations p st"
  by (simp add: invocations_def emit_def)

lemma invocations_deleteSession [simp]:
  "invocations p (snd (deleteSession sid st)) = invocations p st"
  by (simp add: invocations_def)

lemma length_promises_invoke [simp]: "length (promises (invoke q oc st)) = length (promises st)"
  by (simp add: invoke_def)

lemma timers_invoke [simp]: "timers (invoke q oc st) = timers st"
  by (simp add: invoke_def)

lemma awaiting_invoke [simp]: "awaiting (invoke q oc st) = awaiting st"
  by (simp add: invoke_def)

lemma timers_deleteSession [simp]: "timers (snd (deleteSession sid st)) = timers st"
  by (simp add: deleteSession_def)

lemma awaiting_deleteSession [simp]: "awaiting (snd (deleteSession sid st)) = awaiting st"
  by (simp add: deleteSession_def)

lemma set_delete: "set (AList.delete k xs) = {e \<in> set xs. fst e \<noteq> k}"
  by (auto simp: AList.delete_eq)

lemma set_update_cases:
  "e \<in> set (AList.update k v xs) \<Longrightarrow> e = (k, v) \<or> e \<in> set xs"
  by (induction xs) (auto split: if_splits)

lemma nth_promises_invoke:
  "q < length (promises st) \<Longrightarrow>
     promises (invoke q oc st) ! p =
       (if p = q then (case promises st ! q of None \<Rightarrow> Some oc | Some first \<Rightarrow> Some first)
        else promises st ! p)"
  by (simp add: invoke_def)

lemma inv0_invoke:
  assumes "inv0 st" and "q < length (promises st)"
  shows "inv0 (invoke q oc st)"
proof -
  have settle: "promises (invoke q oc st) ! p
          = (case invocations p (invoke q oc st) of [] \<Rightarrow> None | first # later \<Rightarrow> Some first)"
    if p: "p < length (promises st)" for p
  proof -
    from assms(1) p have old: "promises st ! p
          = (case invocations p st of [] \<Rightarrow> None | first # later \<Rightarrow> Some first)"
      by (simp add: inv0_def)
    show ?thesis
    proof (cases "p = q")
      case True
      with old assms(2) show ?thesis
        by (cases "invocations q st") (simp_all add: nth_promises_invoke)
    next
      case False
      with old assms(2) show ?thesis
        by (simp add: nth_promises_invoke)
    qed
  qed
  have eff: "effects (invoke q oc st) = effects st @ [Invoke q oc]" by simp
  show ?thesis
    unfolding inv0_def
  proof (intro conjI)
    show "distinct (map fst (sessions (invoke q oc st)))"
      using assms(1) by (simp add: inv0_def)
    show "\<forall>p<length (promises (invoke q oc st)). promises (invoke q oc st) ! p
          = (case invocations p (invoke q oc st) of [] \<Rightarrow> None | first # later \<Rightarrow> Some first)"
      using settle by simp
    show "\<forall>p<length (promises (invoke q oc st)).
            map_of (timers (invoke q oc st)) p = None \<longrightarrow> invocations p (invoke q oc st) \<noteq> []"
      using assms(1) by (simp add: inv0_def)
    show "\<forall>p sid. map_of (timers (invoke q oc st)) p = Some sid \<longrightarrow>
            p < length (promises (invoke q oc st))"
      using assms(1) by (simp add: inv0_def)
    show "\<forall>s fb p. (s, fb) \<in> set (awaiting (invoke q oc st)) \<and> resolve s = Some p \<longrightarrow>
            p < length (promises (invoke q oc st)) \<and>
            (map_of (timers (invoke q oc st)) p = None \<or>
             map_of (timers (invoke q oc st)) p = Some (sessionId fb))"
      using assms(1) by (simp add: inv0_def)
    show "\<forall>r oc'. Invoke r oc' \<in> set (effects (invoke q oc st)) \<longrightarrow>
            r < length (promises (invoke q oc st))"
      using assms by (auto simp: inv0_def)
  qed
qed

text \<open>A change of the table alone, or of what is emitted, keeps the properties of promises.\<close>

lemma inv0_frame:
  assumes "inv0 st"
    and "distinct (map fst (sessions st'))"
    and "promises st' = promises st" and "timers st' = timers st"
    and "awaiting st' = awaiting st"
    and "\<exists>es. effects st' = effects st @ es \<and> (\<forall>q oc. Invoke q oc \<notin> set es)"
  shows "inv0 st'"
proof -
  from assms(6) obtain es where es: "effects st' = effects st @ es" "\<forall>q oc. Invoke q oc \<notin> set es"
    by blast
  then have "\<And>p. callsOf p es = []" by (simp add: callsOf_empty_iff)
  with es have same: "\<And>p. invocations p st' = invocations p st"
    by (simp add: invocations_def)
  have "\<forall>q oc. Invoke q oc \<in> set (effects st') \<longrightarrow> q < length (promises st)"
    using assms(1) es by (auto simp: inv0_def)
  with assms(1-5) same show ?thesis
    by (simp add: inv0_def)
qed

lemma inv0_emit: "inv0 st \<Longrightarrow> inv0 (emit m st)"
  by (rule inv0_frame [where st = st]) (auto simp: emit_def inv0_def)

lemma inv0_deleteSession: "inv0 st \<Longrightarrow> inv0 (snd (deleteSession sid st))"
  by (rule inv0_frame [where st = st]) (auto simp: deleteSession_def inv0_def distinct_delete)

lemma storedOk_emit: "storedOk st \<Longrightarrow> storedOk (emit m st)"
  by (simp add: storedOk_def) (simp add: emit_def)

lemma storedOk_deleteSession: "storedOk st \<Longrightarrow> storedOk (snd (deleteSession sid st))"
  unfolding storedOk_def by (auto simp: set_delete)

lemma storedOk_invoke_delete:
  assumes "storedOk st"
    and "map_of (timers st) r = None \<or> map_of (timers st) r = Some sid"
  shows "storedOk (snd (deleteSession sid (invoke r oc st)))"
  unfolding storedOk_def
proof (intro allI impI)
  fix k s p
  assume a: "(k, s) \<in> set (sessions (snd (deleteSession sid (invoke r oc st)))) \<and>
             (resolve s = Some p \<or> reject s = Some p)"
  then have in_st: "(k, s) \<in> set (sessions st)" and ne: "k \<noteq> sid"
    by (auto simp: set_delete)
  with assms(1) a have ok: "p < length (promises st)" "invocations p st = []"
    "map_of (timers st) p = Some k"
    unfolding storedOk_def by blast+
  with assms(2) ne have "p \<noteq> r" by auto
  with ok show "p < length (promises (snd (deleteSession sid (invoke r oc st)))) \<and>
        invocations p (snd (deleteSession sid (invoke r oc st))) = [] \<and>
        map_of (timers (snd (deleteSession sid (invoke r oc st)))) p = Some k"
    by simp
qed


lemma inv0_irrelevant [simp]:
  "inv0 (st\<lparr>arrays := a\<rparr>) = inv0 st"
  "inv0 (st\<lparr>cleanupInterval := b\<rparr>) = inv0 st"
  "inv0 (st\<lparr>isServerRunning := b\<rparr>) = inv0 st"
  "inv0 (st\<lparr>listenPort := n\<rparr>) = inv0 st"
  by (simp_all add: inv0_def invocations_def)

lemma storedOk_irrelevant [simp]:
  "storedOk (st\<lparr>arrays := a\<rparr>) = storedOk st"
  "storedOk (st\<lparr>cleanupInterval := b\<rparr>) = storedOk st"
  "storedOk (st\<lparr>isServerRunning := b\<rparr>) = storedOk st"
  "storedOk (st\<lparr>listenPort := n\<rparr>) = storedOk st"
  "storedOk (st\<lparr>awaiting := w\<rparr>) = storedOk st"
  by (simp_all add: storedOk_def invocations_def)

lemma storedOk_more_effects:
  "storedOk st \<Longrightarrow> \<forall>q oc. Invoke q oc \<notin> set es \<Longrightarrow> storedOk (st\<lparr>effects := effects st @ es\<rparr>)"
  by (simp add: storedOk_def invocations_def callsOf_empty_iff)

lemma getSession_cases:
  assumes "getSession sid now st = (r, st')"
  shows "(r = None \<and> (st' = st \<or> st' = snd (deleteSession sid st)))
       \<or> (\<exists>s. r = Some s \<and> st' = st \<and> (sid, s) \<in> set (sessions st))"
proof (cases "map_of (sessions st) sid")
  case None
  with assms show ?thesis by (simp add: getSession_def)
next
  case (Some s)
  then have "(sid, s) \<in> set (sessions st)" by (rule map_of_SomeD)
  with assms Some show ?thesis
    by (auto simp: getSession_def split: if_splits)
qed

lemma inv0_awaitingD:
  "inv0 st \<Longrightarrow> (s, fb) \<in> set (awaiting st) \<Longrightarrow> resolve s = Some p \<Longrightarrow>
     p < length (promises st) \<and>
     (map_of (timers st) p = None \<or> map_of (timers st) p = Some (sessionId fb))"
  unfolding inv0_def by blast

lemma inv0_awaiting:
  assumes "inv0 st"
    and "\<forall>s fb p. (s, fb) \<in> set w \<and> resolve s = Some p \<longrightarrow>
           p < length (promises st) \<and>
           (map_of (timers st) p = None \<or> map_of (timers st) p = Some (sessionId fb))"
  shows "inv0 (st\<lparr>awaiting := w\<rparr>)"
  using assms unfolding inv0_def by (simp add: invocations_def)

lemma inv0_getSession: "inv0 st \<Longrightarrow> inv0 (snd (getSession sid now st))"
  using getSession_cases [of sid now st "fst (getSession sid now st)" "snd (getSession sid now st)"]
  by (auto simp: inv0_deleteSession)

lemma storedOk_getSession: "storedOk st \<Longrightarrow> storedOk (snd (getSession sid now st))"
  using getSession_cases [of sid now st "fst (getSession sid now st)" "snd (getSession sid now st)"]
  by (auto simp: storedOk_deleteSession)

lemma updateSession_fields [simp]:
  "promises (snd (updateSession sid fb st)) = promises st"
  "timers (snd (updateSession sid fb st)) = timers st"
  "awaiting (snd (updateSession sid fb st)) = awaiting st"
  "effects (snd (updateSession sid fb st)) = effects st"
  by (simp_all add: updateSession_def split: option.splits)

lemma inv0_updateSession: "inv0 st \<Longrightarrow> inv0 (snd (updateSession sid fb st))"
  by (rule inv0_frame [where st = st])
     (auto simp: updateSession_def inv0_def distinct_update split: option.splits)

lemma storedOk_updateSession:
  assumes "storedOk st"
  shows "storedOk (snd (updateSession sid fb st))"
proof (cases "map_of (sessions st) sid")
  case None
  with assms show ?thesis by (simp add: updateSession_def)
next
  case (Some session0)
  then have mem: "(sid, session0) \<in> set (sessions st)" by (rule map_of_SomeD)
  have same: "\<And>p. invocations p (snd (updateSession sid fb st)) = invocations p st"
    by (simp add: invocations_def)
  show ?thesis
    unfolding storedOk_def
  proof (intro allI impI)
    fix k s p
    assume a: "(k, s) \<in> set (sessions (snd (updateSession sid fb st))) \<and>
               (resolve s = Some p \<or> reject s = Some p)"
    then have "(k, s) \<in> set (AList.update sid (session0\<lparr>feedback := fb\<rparr>) (sessions st))"
      using Some by (simp add: updateSession_def)
    then have "(k, s) = (sid, session0\<lparr>feedback := fb\<rparr>) \<or> (k, s) \<in> set (sessions st)"
      by (rule set_update_cases)
    then have "\<exists>s0. (k, s0) \<in> set (sessions st) \<and> resolve s0 = resolve s \<and> reject s0 = reject s"
      using mem by auto
    with assms a have "p < length (promises st) \<and> invocations p st = [] \<and>
        map_of (timers st) p = Some k"
      unfolding storedOk_def by metis
    then show "p < length (promises (snd (updateSession sid fb st))) \<and>
        invocations p (snd (updateSession sid fb st)) = [] \<and>
        map_of (timers (snd (updateSession sid fb st))) p = Some k"
      using same by simp
  qed
qed

lemma emit_fields [simp]:
  "promises (emit m st) = promises st" "timers (emit m st) = timers st"
  "awaiting (emit m st) = awaiting st" "sessions (emit m st) = sessions st"
  by (simp_all add: emit_def)

lemma inv_completeSubmission:
  assumes "inv0 st" and "storedOk st"
    and "\<forall>p. resolve session = Some p \<longrightarrow> p < length (promises st) \<and>
           (map_of (timers st) p = None \<or> map_of (timers st) p = Some (sessionId fb))"
  shows "inv0 (completeSubmission session fb st) \<and> storedOk (completeSubmission session fb st)"
proof -
  define st1 where "st1 = st\<lparr>arrays := (arrays st)[feedback session :=
                                  arrays st ! feedback session @ [fb]]\<rparr>"
  define st3 where "st3 = emit feedback_submitted (snd (updateSession (sessionId fb) (feedback session) st1))"
  have i3: "inv0 st3" and s3: "storedOk st3"
    using assms(1,2)
    by (simp_all add: st3_def st1_def inv0_emit inv0_updateSession storedOk_emit storedOk_updateSession)
  have f3: "promises st3 = promises st" "timers st3 = timers st"
    by (simp_all add: st3_def st1_def)
  show ?thesis
  proof (cases "resolve session")
    case None
    then have "completeSubmission session fb st = st3"
      by (simp add: completeSubmission_def st3_def st1_def Let_def)
    with i3 s3 show ?thesis by simp
  next
    case (Some r)
    then have eq: "completeSubmission session fb st
           = snd (deleteSession (sessionId fb) (invoke r (Resolved (arrays st3 ! feedback session)) st3))"
      by (simp add: completeSubmission_def st3_def st1_def Let_def)
    from Some assms(3) f3 have r: "r < length (promises st3)"
      "map_of (timers st3) r = None \<or> map_of (timers st3) r = Some (sessionId fb)"
      by simp_all
    show ?thesis
      unfolding eq
      using inv0_deleteSession [OF inv0_invoke [OF i3 r(1)]] storedOk_invoke_delete [OF s3 r(2)]
      by simp
  qed
qed

lemma inv_handleFeedbackSubmission:
  assumes "inv0 st" and "storedOk st"
  shows "inv0 (handleFeedbackSubmission fb now st) \<and> storedOk (handleFeedbackSubmission fb now st)"
proof -
  obtain r st1 where g: "getSession (sessionId fb) now st = (r, st1)"
    by (cases "getSession (sessionId fb) now st")
  have i1: "inv0 st1" and s1: "storedOk st1"
    using inv0_getSession [OF assms(1), of "sessionId fb" now]
      storedOk_getSession [OF assms(2), of "sessionId fb" now] g by simp_all
  show ?thesis
  proof (cases r)
    case None
    with g i1 s1 show ?thesis
      by (simp add: handleFeedbackSubmission_def inv0_emit storedOk_emit)
  next
    case (Some session)
    with getSession_cases [OF g] have mem: "(sessionId fb, session) \<in> set (sessions st1)"
      by auto
    with s1 have pr: "\<forall>p. resolve session = Some p \<longrightarrow> p < length (promises st1) \<and>
           (map_of (timers st1) p = None \<or> map_of (timers st1) p = Some (sessionId fb))"
      unfolding storedOk_def by blast
    have aw: "inv0 (st1\<lparr>awaiting := awaiting st1 @ [(session, fb)]\<rparr>)"
    proof (rule inv0_awaiting [OF i1], intro allI impI)
      fix s fb' p
      assume a: "(s, fb') \<in> set (awaiting st1 @ [(session, fb)]) \<and> resolve s = Some p"
      then consider "(s, fb') \<in> set (awaiting st1)" | "s = session" "fb' = fb" by auto
      then show "p < length (promises st1) \<and>
           (map_of (timers st1) p = None \<or> map_of (timers st1) p = Some (sessionId fb'))"
      proof cases
        case 1
        with a i1 show ?thesis using inv0_awaitingD by blast
      next
        case 2
        with a pr show ?thesis by simp
      qed
    qed
    show ?thesis
      using g Some i1 s1 aw inv_completeSubmission [OF i1 s1 pr]
      by (simp add: handleFeedbackSubmission_def inv0_emit storedOk_emit)
  qed
qed

lemma inv_imagesProcessed:
  assumes "inv0 st" and "storedOk st"
  shows "inv0 (imagesProcessed k res st) \<and> storedOk (imagesProcessed k res st)"
proof (cases "k < length (awaiting st)")
  case False
  with assms show ?thesis by (simp add: imagesProcessed_def)
next
  case True
  obtain session fb where e: "awaiting st ! k = (session, fb)"
    by (cases "awaiting st ! k")
  define st1 where "st1 = st\<lparr>awaiting := take k (awaiting st) @ drop (Suc k) (awaiting st)\<rparr>"
  have mem: "(session, fb) \<in> set (awaiting st)"
    using True e by (metis nth_mem)
  have sub: "set (awaiting st1) \<subseteq> set (awaiting st)"
    by (auto simp: st1_def dest: in_set_takeD in_set_dropD)
  have i1: "inv0 st1"
    unfolding st1_def
  proof (rule inv0_awaiting [OF assms(1)], intro allI impI)
    fix s fb' p
    assume "(s, fb') \<in> set (take k (awaiting st) @ drop (Suc k) (awaiting st)) \<and> resolve s = Some p"
    then have "(s, fb') \<in> set (awaiting st)" "resolve s = Some p"
      using sub by (auto simp: st1_def)
    then show "p < length (promises st) \<and>
           (map_of (timers st) p = None \<or> map_of (timers st) p = Some (sessionId fb'))"
      using inv0_awaitingD [OF assms(1)] by blast
  qed
  have s1: "storedOk st1" using assms(2) by (simp add: st1_def)
  have pr: "\<forall>p. resolve session = Some p \<longrightarrow> p < length (promises st1) \<and>
           (map_of (timers st1) p = None \<or> map_of (timers st1) p = Some (sessionId (fb\<lparr>images := x\<rparr>)))" for x
    using inv0_awaitingD [OF assms(1) mem] by (simp add: st1_def)
  show ?thesis
    using True e i1 s1 inv_completeSubmission [OF i1 s1 pr]
    by (auto simp: imagesProcessed_def st1_def [symmetric] Let_def inv0_emit storedOk_emit
             split: option.splits)
qed


lemma inv0_timersD: "inv0 st \<Longrightarrow> map_of (timers st) p = Some sid \<Longrightarrow> p < length (promises st)"
  unfolding inv0_def by blast

lemma inv0_remove_timer:
  assumes "inv0 st" and "invocations p st \<noteq> []"
  shows "inv0 (st\<lparr>timers := AList.delete p (timers st)\<rparr>)"
  unfolding inv0_def
proof (intro conjI)
  let ?st = "st\<lparr>timers := AList.delete p (timers st)\<rparr>"
  have inv [simp]: "\<And>q. invocations q ?st = invocations q st"
    by (simp add: invocations_def)
  have look: "\<And>q. map_of (timers ?st) q = (if q = p then None else map_of (timers st) q)"
    by (simp add: AList.delete_conv')
  show "distinct (map fst (sessions ?st))" using assms(1) by (simp add: inv0_def)
  show "\<forall>q<length (promises ?st). promises ?st ! q
          = (case invocations q ?st of [] \<Rightarrow> None | first # later \<Rightarrow> Some first)"
    using assms(1) by (simp add: inv0_def)
  show "\<forall>q<length (promises ?st). map_of (timers ?st) q = None \<longrightarrow> invocations q ?st \<noteq> []"
    using assms unfolding look by (simp add: inv0_def)
  show "\<forall>q sid. map_of (timers ?st) q = Some sid \<longrightarrow> q < length (promises ?st)"
    using assms(1) unfolding look by (auto simp: inv0_def)
  show "\<forall>s fb q. (s, fb) \<in> set (awaiting ?st) \<and> resolve s = Some q \<longrightarrow>
          q < length (promises ?st) \<and>
          (map_of (timers ?st) q = None \<or> map_of (timers ?st) q = Some (sessionId fb))"
    using inv0_awaitingD [OF assms(1)] unfolding look by auto
  show "\<forall>q oc. Invoke q oc \<in> set (effects ?st) \<longrightarrow> q < length (promises ?st)"
    using assms(1) by (auto simp: inv0_def)
qed

lemma storedOk_remove_timer:
  assumes "storedOk st" and "invocations p st \<noteq> []"
  shows "storedOk (st\<lparr>timers := AList.delete p (timers st)\<rparr>)"
  unfolding storedOk_def
proof (intro allI impI)
  fix k s q
  assume a: "(k, s) \<in> set (sessions (st\<lparr>timers := AList.delete p (timers st)\<rparr>)) \<and>
             (resolve s = Some q \<or> reject s = Some q)"
  with assms(1) have ok: "q < length (promises st)" "invocations q st = []"
    "map_of (timers st) q = Some k"
    unfolding storedOk_def by auto
  with assms(2) have "q \<noteq> p" by auto
  with ok show "q < length (promises (st\<lparr>timers := AList.delete p (timers st)\<rparr>)) \<and>
        invocations q (st\<lparr>timers := AList.delete p (timers st)\<rparr>) = [] \<and>
        map_of (timers (st\<lparr>timers := AList.delete p (timers st)\<rparr>)) q = Some k"
    by (simp add: invocations_def AList.delete_conv')
qed

lemma inv_timerFires:
  assumes "inv0 st" and "storedOk st"
  shows "inv0 (timerFires p st) \<and> storedOk (timerFires p st)"
proof (cases "map_of (timers st) p")
  case None
  with assms show ?thesis by (simp add: timerFires_def)
next
  case (Some sid)
  define st1 where "st1 = snd (deleteSession sid (invoke p (Rejected FEEDBACK_TIMEOUT) st))"
  have eq: "timerFires p st = st1\<lparr>timers := AList.delete p (timers st1)\<rparr>"
    using Some by (simp add: timerFires_def st1_def invoke_def deleteSession_def)
  have p: "p < length (promises st)" using inv0_timersD [OF assms(1) Some] .
  have i1: "inv0 st1"
    unfolding st1_def by (rule inv0_deleteSession [OF inv0_invoke [OF assms(1) p]])
  have s1: "storedOk st1"
    unfolding st1_def by (rule storedOk_invoke_delete [OF assms(2)]) (simp add: Some)
  have called: "invocations p st1 \<noteq> []" by (simp add: st1_def)
  show ?thesis
    unfolding eq using inv0_remove_timer [OF i1 called] storedOk_remove_timer [OF s1 called]
    by simp
qed

lemma inv_new_promise:
  assumes "inv0 st" and "storedOk st"
  shows "inv0 (st\<lparr>promises := promises st @ [None], timers := timers st @ [(length (promises st), sid)]\<rparr>)
       \<and> storedOk (st\<lparr>promises := promises st @ [None], timers := timers st @ [(length (promises st), sid)]\<rparr>)"
proof -
  let ?n = "length (promises st)"
  let ?st = "st\<lparr>promises := promises st @ [None], timers := timers st @ [(?n, sid)]\<rparr>"
  have inv [simp]: "\<And>q. invocations q ?st = invocations q st"
    by (simp add: invocations_def)
  have fresh: "map_of (timers st) ?n = None"
    using inv0_timersD [OF assms(1), of ?n] by (cases "map_of (timers st) ?n") auto
  have uncalled: "invocations ?n st = []"
    using assms(1) unfolding inv0_def invocations_def callsOf_empty_iff by blast
  have look: "\<And>q. map_of (timers ?st) q = (if q = ?n then Some sid else map_of (timers st) q)"
    using fresh by (auto simp: map_add_def split: option.splits)
  have "inv0 ?st"
    unfolding inv0_def
  proof (intro conjI)
    show "distinct (map fst (sessions ?st))" using assms(1) by (simp add: inv0_def)
    show "\<forall>q<length (promises ?st). promises ?st ! q
          = (case invocations q ?st of [] \<Rightarrow> None | first # later \<Rightarrow> Some first)"
      using assms(1) uncalled by (auto simp: inv0_def nth_append less_Suc_eq)
    show "\<forall>q<length (promises ?st). map_of (timers ?st) q = None \<longrightarrow> invocations q ?st \<noteq> []"
      using assms(1) unfolding look by (auto simp: inv0_def less_Suc_eq)
    show "\<forall>q k. map_of (timers ?st) q = Some k \<longrightarrow> q < length (promises ?st)"
      using assms(1) unfolding look by (auto simp: inv0_def less_Suc_eq split: if_splits)
    show "\<forall>s fb q. (s, fb) \<in> set (awaiting ?st) \<and> resolve s = Some q \<longrightarrow>
          q < length (promises ?st) \<and>
          (map_of (timers ?st) q = None \<or> map_of (timers ?st) q = Some (sessionId fb))"
      using inv0_awaitingD [OF assms(1)] unfolding look by (auto simp: less_Suc_eq)
    show "\<forall>q oc. Invoke q oc \<in> set (effects ?st) \<longrightarrow> q < length (promises ?st)"
      using assms(1) by (auto simp: inv0_def less_Suc_eq)
  qed
  moreover have "storedOk ?st"
    unfolding storedOk_def
  proof (intro allI impI)
    fix k s q
    assume "(k, s) \<in> set (sessions ?st) \<and> (resolve s = Some q \<or> reject s = Some q)"
    with assms(2) have ok: "q < length (promises st)" "invocations q st = []"
      "map_of (timers st) q = Some k"
      unfolding storedOk_def by auto
    then show "q < length (promises ?st) \<and> invocations q ?st = [] \<and> map_of (timers ?st) q = Some k"
      unfolding look by auto
  qed
  ultimately show ?thesis by simp
qed

lemma inv_createSession:
  assumes "inv0 st" and "storedOk st"
    and "\<forall>p. resolve data = Some p \<or> reject data = Some p \<longrightarrow>
           p < length (promises st) \<and> invocations p st = [] \<and> map_of (timers st) p = Some sid"
  shows "inv0 (createSession sid data st) \<and> storedOk (createSession sid data st)"
proof -
  have "inv0 (createSession sid data st)"
    by (rule inv0_frame [OF assms(1)])
       (use assms(1) in \<open>auto simp: createSession_def inv0_def distinct_update\<close>)
  moreover have "storedOk (createSession sid data st)"
    unfolding storedOk_def
  proof (intro allI impI)
    fix k s q
    assume a: "(k, s) \<in> set (sessions (createSession sid data st)) \<and>
               (resolve s = Some q \<or> reject s = Some q)"
    then have "(k, s) = (sid, data) \<or> (k, s) \<in> set (sessions st)"
      using set_update_cases [of "(k, s)" sid data "sessions st"] by (simp add: createSession_def)
    with a assms(2,3) have "q < length (promises st) \<and> invocations q st = [] \<and>
        map_of (timers st) q = Some k"
      unfolding storedOk_def by blast
    then show "q < length (promises (createSession sid data st)) \<and>
        invocations q (createSession sid data st) = [] \<and>
        map_of (timers (createSession sid data st)) q = Some k"
      by (simp add: createSession_def invocations_def)
  qed
  ultimately show ?thesis by simp
qed

lemma inv_collectFeedback:
  assumes "inv0 st" and "storedOk st"
  shows "inv0 (snd (collectFeedback summary secs sid now st))
       \<and> storedOk (snd (collectFeedback summary secs sid now st))"
proof -
  let ?n = "length (promises st)"
  define st1 where "st1 = st\<lparr>promises := promises st @ [None], timers := timers st @ [(?n, sid)]\<rparr>"
  define data where "data = \<lparr>workSummary = summary, feedback = length (arrays st), startTime = now,
                      timeout = secs * 1000, resolve = Some ?n, reject = Some ?n\<rparr>"
  have eq: "snd (collectFeedback summary secs sid now st)
          = createSession sid data (st1\<lparr>arrays := arrays st @ [Nil]\<rparr>)"
    by (simp add: collectFeedback_def Let_def createSession_def st1_def data_def)
  have i1: "inv0 st1" and s1: "storedOk st1"
    using inv_new_promise [OF assms, of sid] by (simp_all add: st1_def)
  have fresh: "map_of (timers st) ?n = None"
    using inv0_timersD [OF assms(1), of ?n] by (cases "map_of (timers st) ?n") auto
  have uncalled: "invocations ?n st = []"
    using assms(1) unfolding inv0_def invocations_def callsOf_empty_iff by blast
  have pr: "\<forall>p. resolve data = Some p \<or> reject data = Some p \<longrightarrow>
           p < length (promises (st1\<lparr>arrays := arrays st @ [Nil]\<rparr>)) \<and>
           invocations p (st1\<lparr>arrays := arrays st @ [Nil]\<rparr>) = [] \<and>
           map_of (timers (st1\<lparr>arrays := arrays st @ [Nil]\<rparr>)) p = Some sid"
    using fresh uncalled
    by (auto simp: data_def st1_def invocations_def map_add_def)
  show ?thesis
    unfolding eq
    by (rule inv_createSession [OF _ _ pr]) (simp_all add: i1 s1)
qed

lemma inv_api_test_session:
  assumes "inv0 st" and "storedOk st"
  shows "inv0 (api_test_session summary secs sid now st)
       \<and> storedOk (api_test_session summary secs sid now st)"
proof (cases "summary = []")
  case True
  with assms show ?thesis by (simp add: api_test_session_def)
next
  case False
  then show ?thesis
    using inv_createSession [of "st\<lparr>arrays := arrays st @ [Nil]\<rparr>"
        "\<lparr>workSummary = summary, feedback = length (arrays st), startTime = now,
          timeout = secs * 1000, resolve = None, reject = None\<rparr>" sid] assms
    by (simp add: api_test_session_def)
qed


lemma inv_cleanupLoop:
  assumes "inv0 st" and "storedOk st"
    and "set es \<subseteq> set (sessions st)" and "distinct (map fst es)"
  shows "inv0 (snd (cleanupLoop now es n st)) \<and> storedOk (snd (cleanupLoop now es n st))"
  using assms
proof (induction es arbitrary: n st)
  case Nil
  then show ?case by simp
next
  case (Cons e es)
  obtain sid s where e: "e = (sid, s)" by (cases e)
  show ?case
  proof (cases "now - startTime s > timeout s")
    case False
    with Cons e show ?thesis by simp
  next
    case True
    define st1 where "st1 = (case reject s of
                        Some r \<Rightarrow> invoke r (Rejected SESSION_TIMEOUT) st
                      | None \<Rightarrow> st)"
    define st2 where "st2 = snd (deleteSession sid st1)"
    have mem: "(sid, s) \<in> set (sessions st)" using Cons.prems(3) e by simp
    have "inv0 st2 \<and> storedOk st2"
    proof (cases "reject s")
      case None
      then show ?thesis
        using Cons.prems(1,2) by (simp add: st2_def st1_def inv0_deleteSession storedOk_deleteSession)
    next
      case (Some r)
      with mem Cons.prems(2) have r: "r < length (promises st)" "map_of (timers st) r = Some sid"
        unfolding storedOk_def by blast+
      show ?thesis
        using Some inv0_deleteSession [OF inv0_invoke [OF Cons.prems(1) r(1)]]
          storedOk_invoke_delete [OF Cons.prems(2), of r sid] r(2)
        by (simp add: st2_def st1_def)
    qed
    moreover have "set es \<subseteq> set (sessions st2)"
    proof
      fix x assume x: "x \<in> set es"
      then have "x \<in> set (sessions st)" using Cons.prems(3) by auto
      moreover have "fst x \<noteq> sid" using Cons.prems(4) x e by auto
      moreover have "sessions st2 = AList.delete sid (sessions st)"
        by (simp add: st2_def st1_def split: option.splits)
      ultimately show "x \<in> set (sessions st2)" by (simp add: set_delete)
    qed
    moreover have "distinct (map fst es)" using Cons.prems(4) by simp
    ultimately have "inv0 (snd (cleanupLoop now es (n + 1) st2))
                   \<and> storedOk (snd (cleanupLoop now es (n + 1) st2))"
      using Cons.IH by blast
    then show ?thesis
      using True e by (simp add: st2_def st1_def Let_def)
  qed
qed

lemma inv_cleanupExpiredSessions:
  assumes "inv0 st" and "storedOk st"
  shows "inv0 (snd (cleanupExpiredSessions now st)) \<and> storedOk (snd (cleanupExpiredSessions now st))"
  unfolding cleanupExpiredSessions_def
  using assms(1) by (intro inv_cleanupLoop assms) (simp_all add: inv0_def)

lemma rejectAll_fields [simp]:
  "length (promises (rejectAll es st)) = length (promises st)"
  "timers (rejectAll es st) = timers st"
  "awaiting (rejectAll es st) = awaiting st"
  by (induction es arbitrary: st) (auto split: option.splits)

lemma inv0_rejectAll:
  assumes "inv0 st"
    and "\<forall>sid s r. (sid, s) \<in> set es \<and> reject s = Some r \<longrightarrow> r < length (promises st)"
  shows "inv0 (rejectAll es st)"
  using assms
proof (induction es arbitrary: st)
  case Nil
  then show ?case by simp
next
  case (Cons e es)
  obtain sid s where e: "e = (sid, s)" by (cases e)
  show ?case
  proof (cases "reject s")
    case None
    have "inv0 (rejectAll es st)"
      using Cons.prems by (intro Cons.IH) auto
    with None e show ?thesis by simp
  next
    case (Some r)
    with Cons.prems(2) e have r: "r < length (promises st)" by auto
    have "inv0 (rejectAll es (invoke r (Rejected SERVER_SHUTDOWN) st))"
      using Cons.prems(2) by (intro Cons.IH inv0_invoke [OF Cons.prems(1) r]) auto
    with Some e show ?thesis by simp
  qed
qed

lemma inv_clear:
  assumes "inv0 st" and "storedOk st"
  shows "inv0 (clear st) \<and> storedOk (clear st)"
proof -
  have "inv0 (rejectAll (sessions st) st)"
    using assms(2) by (intro inv0_rejectAll assms(1)) (auto simp: storedOk_def)
  then have "inv0 (clear st)"
    by (simp add: clear_def inv0_def invocations_def)
  moreover have "storedOk (clear st)"
    by (simp add: clear_def storedOk_def)
  ultimately show ?thesis by simp
qed

lemma inv_more_effects:
  assumes "inv0 st" and "storedOk st" and "\<forall>q oc. Invoke q oc \<notin> set es"
  shows "inv0 (st\<lparr>effects := effects st @ es\<rparr>) \<and> storedOk (st\<lparr>effects := effects st @ es\<rparr>)"
proof -
  have "inv0 (st\<lparr>effects := effects st @ es\<rparr>)"
    by (rule inv0_frame [OF assms(1)]) (use assms(1,3) in \<open>auto simp: inv0_def\<close>)
  with storedOk_more_effects [OF assms(2,3)] show ?thesis by simp
qed

lemma inv_stopCalled:
  assumes "inv0 st" and "storedOk st"
  shows "inv0 (stopCalled st) \<and> storedOk (stopCalled st)"
proof (cases "isServerRunning st")
  case False
  with assms show ?thesis by (simp add: stopCalled_def)
next
  case True
  have c: "inv0 (clear st) \<and> storedOk (clear st)" by (rule inv_clear [OF assms])
  have t: "inv0 (stopCleanupTimer (clear st)) \<and> storedOk (stopCleanupTimer (clear st))"
    using c inv_more_effects [of "(clear st)\<lparr>cleanupInterval := False\<rparr>" "[ClearInterval]"]
    by (simp add: stopCleanupTimer_def)
  show ?thesis
    using True t inv_more_effects [of "stopCleanupTimer (clear st)" "[DisconnectSockets, CloseIO, CloseHttp]"]
    by (simp add: stopCalled_def Let_def)
qed

lemma inv_step:
  assumes "inv0 st" and "storedOk st"
  shows "inv0 (step e st) \<and> storedOk (step e st)"
proof (cases e)
  case (Started prt)
  with assms show ?thesis by simp
next
  case (CollectFeedback summary secs sid now)
  with inv_collectFeedback [OF assms] show ?thesis by simp
next
  case (TestSession summary secs sid now)
  with inv_api_test_session [OF assms] show ?thesis by simp
next
  case RequestSession
  with assms show ?thesis by (simp add: inv0_emit storedOk_emit)
next
  case (GetWorkSummary sid now)
  with inv0_getSession [OF assms(1), of sid now] storedOk_getSession [OF assms(2), of sid now]
  show ?thesis
    by (auto simp: get_work_summary_def inv0_emit storedOk_emit split: prod.splits option.splits)
next
  case (SubmitFeedback fb now)
  with inv_handleFeedbackSubmission [OF assms] show ?thesis by simp
next
  case (ImagesProcessed k res)
  with inv_imagesProcessed [OF assms] show ?thesis by simp
next
  case (TimerFires p)
  with inv_timerFires [OF assms] show ?thesis by simp
next
  case (CleanupTick now)
  with inv_cleanupExpiredSessions [OF assms] assms show ?thesis by simp
next
  case StopCalled
  with inv_stopCalled [OF assms] show ?thesis by simp
next
  case (HttpClosed r)
  with assms inv_more_effects [of "st\<lparr>isServerRunning := False\<rparr>" "[WaitForPortRelease (listenPort st)]"]
  show ?thesis by (cases r) (simp_all add: httpClosed_def)
qed

lemma inv_newServer: "inv0 newServer \<and> storedOk newServer"
  by (simp add: inv0_def storedOk_def newServer_def invocations_def)

lemma inv_run:
  "inv0 st \<Longrightarrow> storedOk st \<Longrightarrow> inv0 (run evs st) \<and> storedOk (run evs st)"
  unfolding run_def
  by (induction evs arbitrary: st) (simp_all add: inv_step)

lemma reachable_distinct: "distinct (map fst (sessions (run evs newServer)))"
  using inv_run [of newServer evs] inv_newServer by (simp add: inv0_def)

lemma effects_rejectAll: "effects (rejectAll es st) = effects st @ shutdownCalls es"
  by (induction es arbitrary: st) (auto simp: shutdownCalls_def split: option.splits)

lemma rejectAll_flags [simp]:
  "cleanupInterval (rejectAll es st) = cleanupInterval st"
  "listenPort (rejectAll es st) = listenPort st"
  "isServerRunning (rejectAll es st) = isServerRunning st"
  by (induction es arbitrary: st) (auto simp: invoke_def split: option.splits)

lemma effects_stopCalled:
  "isServerRunning st \<Longrightarrow>
     effects (stopCalled st) =
       effects st @ shutdownCalls (sessions st) @ (if cleanupInterval st then [ClearInterval] else [])
         @ [DisconnectSockets, CloseIO, CloseHttp]"
  by (simp add: stopCalled_def clear_def stopCleanupTimer_def effects_rejectAll Let_def)

lemma stopCalled_fields:
  "isServerRunning st \<Longrightarrow> sessions (stopCalled st) = []"
  "listenPort (stopCalled st) = listenPort st"
  by (simp_all add: stopCalled_def clear_def stopCleanupTimer_def Let_def)

lemma continues_refl [simp]: "continues st st"
  by (simp add: continues_def)

lemma continues_trans: "continues a b \<Longrightarrow> continues b c \<Longrightarrow> continues a c"
  unfolding continues_def by (meson prefix_order.trans le_trans)

lemma effects_emit [simp]: "effects (emit m st) = effects st @ [Emit m]"
  by (simp add: emit_def)

lemma continues_emit [simp]: "continues st (emit m st)"
  by (simp add: continues_def emit_def)

lemma continues_invoke [simp]: "continues st (invoke q oc st)"
  by (simp add: continues_def)

lemma continues_deleteSession [simp]: "continues st (snd (deleteSession sid st))"
  by (simp add: continues_def)

lemma continues_getSession [simp]: "continues st (snd (getSession sid now st))"
  by (simp add: getSession_def split: option.splits)

lemma continues_completeSubmission: "continues st (completeSubmission session fb st)"
  by (simp add: continues_def completeSubmission_def Let_def emit_def split: option.splits)

lemma continues_handleFeedbackSubmission: "continues st (handleFeedbackSubmission fb now st)"
proof -
  obtain r st1 where g: "getSession (sessionId fb) now st = (r, st1)"
    by (cases "getSession (sessionId fb) now st")
  have c1: "continues st st1" using continues_getSession [of st "sessionId fb" now] g by simp
  have "continues st1 (handleFeedbackSubmission fb now st)"
    using g continues_completeSubmission [of st1 _ fb]
    by (cases r) (auto simp: handleFeedbackSubmission_def continues_def)
  with c1 show ?thesis by (rule continues_trans)
qed

lemma continues_imagesProcessed: "continues st (imagesProcessed k res st)"
proof (cases "k < length (awaiting st)")
  case False
  then show ?thesis by (simp add: imagesProcessed_def)
next
  case True
  define st1 where "st1 = st\<lparr>awaiting := take k (awaiting st) @ drop (Suc k) (awaiting st)\<rparr>"
  have c1: "continues st st1" by (simp add: st1_def continues_def)
  have "continues st1 (imagesProcessed k res st)"
    using True continues_completeSubmission [of st1]
    by (auto simp: imagesProcessed_def st1_def [symmetric] Let_def split: prod.splits option.splits)
  with c1 show ?thesis by (rule continues_trans)
qed

lemma continues_timerFires: "continues st (timerFires p st)"
  by (simp add: timerFires_def continues_def deleteSession_def split: option.splits)

lemma length_promises_cleanupLoop [simp]:
  "length (promises (snd (cleanupLoop now es n st))) = length (promises st)"
  by (induction es arbitrary: n st) (auto simp: Let_def split: option.splits)

lemma continues_cleanupExpiredSessions: "continues st (snd (cleanupExpiredSessions now st))"
  by (simp add: continues_def cleanupExpiredSessions_def cleanupLoop_effects)

lemma continues_stopCalled: "continues st (stopCalled st)"
proof (cases "isServerRunning st")
  case True
  then show ?thesis
    by (simp add: continues_def effects_stopCalled)
       (simp add: stopCalled_def clear_def stopCleanupTimer_def Let_def)
next
  case False
  then show ?thesis by (simp add: stopCalled_def)
qed

lemma continues_step: "continues st (step e st)"
proof (cases e)
  case (CollectFeedback summary secs sid now)
  then show ?thesis
    by (simp add: continues_def collectFeedback_def createSession_def Let_def)
next
  case (TestSession summary secs sid now)
  then show ?thesis by (simp add: continues_def api_test_session_def createSession_def)
next
  case (GetWorkSummary sid now)
  obtain r st1 where g: "getSession sid now st = (r, st1)" by (cases "getSession sid now st")
  have "continues st st1" using continues_getSession [of st sid now] g by simp
  moreover have "continues st1 (get_work_summary sid now st)"
    using g by (cases r) (simp_all add: get_work_summary_def)
  ultimately show ?thesis using GetWorkSummary by (auto intro: continues_trans)
next
  case (HttpClosed r)
  then show ?thesis by (cases r) (simp_all add: httpClosed_def continues_def)
qed (simp_all add: continues_def continues_handleFeedbackSubmission continues_imagesProcessed
       continues_timerFires continues_cleanupExpiredSessions continues_stopCalled
       continues_emit [unfolded continues_def]
       continues_handleFeedbackSubmission [unfolded continues_def]
       continues_imagesProcessed [unfolded continues_def]
       continues_timerFires [unfolded continues_def]
       continues_cleanupExpiredSessions [unfolded continues_def]
       continues_stopCalled [unfolded continues_def])

lemma continues_run: "continues st (run evs st)"
  unfolding run_def
proof (induction evs arbitrary: st)
  case Nil
  show ?case by simp
next
  case (Cons e evs)
  have "continues st (step e st)" by (rule continues_step)
  moreover have "continues (step e st) (fold step evs (step e st))" by (rule Cons.IH)
  ultimately show ?case by (simp add: continues_trans)
qed

lemma run_append: "run (evs @ evs') st = run evs' (run evs st)"
  by (simp add: run_def)

lemma callsOf_prefix: "prefix a b \<Longrightarrow> prefix (callsOf p a) (callsOf p b)"
  by (auto elim!: prefixE)

text \<open>
  C1 (as amended). In every state a server reaches from its start, by any sequence of
  session creations, submissions (also ones suspended for image processing), sweeps,
  timer firings, lookups and shutdowns, the promise of a session is settled by the
  first call of its \<open>resolve\<close> or \<open>reject\<close> and by nothing else: it is pending exactly
  as long as neither has been called, and whatever happens later only adds calls and
  leaves a settled promise as it is. Once the session's timer has fired there has been
  at least one call. While the session is in the table there has been none, and its
  timer is still armed.
\<close>

theorem promise_settled_by_first_call:
  assumes "p < length (promises (run evs newServer))"
  shows "promises (run evs newServer) ! p
           = (case invocations p (run evs newServer) of [] \<Rightarrow> None | first # later \<Rightarrow> Some first)
       \<and> (map_of (timers (run evs newServer)) p = None \<longrightarrow> invocations p (run evs newServer) \<noteq> [])
       \<and> (\<forall>sid s. (sid, s) \<in> set (sessions (run evs newServer)) \<and>
                  (resolve s = Some p \<or> reject s = Some p) \<longrightarrow>
             invocations p (run evs newServer) = [] \<and>
             map_of (timers (run evs newServer)) p = Some sid)
       \<and> (\<forall>evs'. prefix (invocations p (run evs newServer))
                         (invocations p (run (evs @ evs') newServer)) \<and>
                  (promises (run evs newServer) ! p \<noteq> None \<longrightarrow>
                     promises (run (evs @ evs') newServer) ! p = promises (run evs newServer) ! p))"
proof -
  have i: "inv0 (run evs newServer)" and s: "storedOk (run evs newServer)"
    using inv_run [of newServer evs] inv_newServer by simp_all
  from i assms have first: "promises (run evs newServer) ! p
           = (case invocations p (run evs newServer) of [] \<Rightarrow> None | first # later \<Rightarrow> Some first)"
    and fired: "map_of (timers (run evs newServer)) p = None \<longrightarrow> invocations p (run evs newServer) \<noteq> []"
    unfolding inv0_def by blast+
  from s have stored: "\<forall>sid s. (sid, s) \<in> set (sessions (run evs newServer)) \<and>
                  (resolve s = Some p \<or> reject s = Some p) \<longrightarrow>
             invocations p (run evs newServer) = [] \<and>
             map_of (timers (run evs newServer)) p = Some sid"
    unfolding storedOk_def by blast
  have later: "prefix (invocations p (run evs newServer)) (invocations p (run (evs @ evs') newServer)) \<and>
        (promises (run evs newServer) ! p \<noteq> None \<longrightarrow>
           promises (run (evs @ evs') newServer) ! p = promises (run evs newServer) ! p)" for evs'
  proof -
    let ?A = "run evs newServer" and ?B = "run (evs @ evs') newServer"
    have c: "continues ?A ?B" using continues_run [of ?A evs'] by (simp add: run_append)
    then have pre: "prefix (invocations p ?A) (invocations p ?B)"
      by (simp add: continues_def invocations_def callsOf_prefix)
    from c assms have len: "p < length (promises ?B)" by (simp add: continues_def)
    have iB: "inv0 ?B" using inv_run [of newServer "evs @ evs'"] inv_newServer by simp
    with len have firstB: "promises ?B ! p
           = (case invocations p ?B of [] \<Rightarrow> None | first # later \<Rightarrow> Some first)"
      unfolding inv0_def by blast
    have "promises ?B ! p = promises ?A ! p" if "promises ?A ! p \<noteq> None"
    proof -
      from that first obtain f r where a: "invocations p ?A = f # r"
        by (cases "invocations p ?A") auto
      with pre obtain xs where "invocations p ?B = f # (r @ xs)"
        by (auto elim!: prefixE)
      with a first firstB show ?thesis by simp
    qed
    with pre show ?thesis by blast
  qed
  from first fired stored later show ?thesis by blast
qed

text \<open>
  A submission resolves the session; its timer is not cancelled and, when it fires,
  calls \<open>reject\<close>: two calls of the continuation.
\<close>

theorem continuation_called_twice_counterexample:
  "invocations 0
     (run [CollectFeedback ''did X'' 10 ''s1'' 0,
           SubmitFeedback \<lparr>sessionId = ''s1'', fbText = Some ''looks good'', images = None,
                            timestamp = 5000\<rparr> 5000,
           TimerFires 0] newServer)
   = [Resolved [\<lparr>sessionId = ''s1'', fbText = Some ''looks good'', images = None,
                  timestamp = 5000\<rparr>],
      Rejected FEEDBACK_TIMEOUT]"
  by (simp add: run_def newServer_def collectFeedback_def createSession_def
        handleFeedbackSubmission_def getSession_def noText_def noImages_def
        completeSubmission_def updateSession_def emit_def invoke_def deleteSession_def
        timerFires_def invocations_def Let_def)

theorem promise_settled_by_first_call_witness:
  "promises
     (run [CollectFeedback ''did X'' 10 ''s1'' 0,
           SubmitFeedback \<lparr>sessionId = ''s1'', fbText = Some ''looks good'', images = None,
                            timestamp = 5000\<rparr> 5000,
           TimerFires 0] newServer) ! 0
   = Some (Resolved [\<lparr>sessionId = ''s1'', fbText = Some ''looks good'', images = None,
                        timestamp = 5000\<rparr>])"
proof -
  let ?st = "run [CollectFeedback ''did X'' 10 ''s1'' 0,
           SubmitFeedback \<lparr>sessionId = ''s1'', fbText = Some ''looks good'', images = None,
                            timestamp = 5000\<rparr> 5000,
           TimerFires 0] newServer"
  have len: "0 < length (promises ?st)"
    by (simp add: run_def newServer_def collectFeedback_def createSession_def
        handleFeedbackSubmission_def getSession_def noText_def noImages_def
        completeSubmission_def updateSession_def emit_def invoke_def deleteSession_def
        timerFires_def Let_def)
  have calls: "invocations 0 ?st
   = [Resolved [\<lparr>sessionId = ''s1'', fbText = Some ''looks good'', images = None,
                  timestamp = 5000\<rparr>],
      Rejected FEEDBACK_TIMEOUT]"
    by (simp add: run_def newServer_def collectFeedback_def createSession_def
        handleFeedbackSubmission_def getSession_def noText_def noImages_def
        completeSubmission_def updateSession_def emit_def invoke_def deleteSession_def
        timerFires_def invocations_def Let_def)
  show ?thesis
    using promise_settled_by_first_call [OF len] calls by simp
qed

section \<open>Shutdown\<close>

lemma callsOf_shutdownCalls:
  "set (callsOf p (shutdownCalls es)) \<subseteq> {Rejected SERVER_SHUTDOWN}"
  "(sid, s) \<in> set es \<Longrightarrow> reject s = Some p \<Longrightarrow> callsOf p (shutdownCalls es) \<noteq> []"
  by (induction es) (auto simp: shutdownCalls_def split: option.splits if_splits)

text \<open>
  C8. When a running server is stopped, the calls of \<open>reject\<close> with a \<open>SERVER_SHUTDOWN\<close>
  error, one for every stored session that has a \<open>reject\<close>, come first; the sockets and
  the HTTP listener are closed after them, and the wait for the release of the port
  comes last. The table is empty when the listener is asked to close, and the promise
  of every session that was stored ends rejected with \<open>SERVER_SHUTDOWN\<close>.
\<close>

theorem stop_aborts_sessions_before_close:
  assumes "isServerRunning (run evs newServer)"
  shows "effects (stop r (run evs newServer)) =
           effects (run evs newServer) @ shutdownCalls (sessions (run evs newServer))
             @ (if cleanupInterval (run evs newServer) then [ClearInterval] else [])
             @ [DisconnectSockets, CloseIO, CloseHttp]
             @ (if r = Closed then [WaitForPortRelease (listenPort (run evs newServer))] else [])
       \<and> sessions (stopCalled (run evs newServer)) = []
       \<and> (\<forall>sid s p. (sid, s) \<in> set (sessions (run evs newServer)) \<and> reject s = Some p \<longrightarrow>
             Invoke p (Rejected SERVER_SHUTDOWN) \<in> set (shutdownCalls (sessions (run evs newServer)))
           \<and> promises (stop r (run evs newServer)) ! p = Some (Rejected SERVER_SHUTDOWN))"
proof (intro conjI allI impI)
  let ?st = "run evs newServer"
  have i: "inv0 ?st" and s: "storedOk ?st"
    using inv_run [of newServer evs] inv_newServer by simp_all
  show eff: "effects (stop r ?st) =
           effects ?st @ shutdownCalls (sessions ?st)
             @ (if cleanupInterval ?st then [ClearInterval] else [])
             @ [DisconnectSockets, CloseIO, CloseHttp]
             @ (if r = Closed then [WaitForPortRelease (listenPort ?st)] else [])"
    using assms by (cases r) (simp_all add: stop_def httpClosed_def effects_stopCalled stopCalled_fields)
  show "sessions (stopCalled ?st) = []"
    using assms by (rule stopCalled_fields)
  fix sid s p
  assume a: "(sid, s) \<in> set (sessions ?st) \<and> reject s = Some p"
  then show "Invoke p (Rejected SERVER_SHUTDOWN) \<in> set (shutdownCalls (sessions ?st))"
    by (force simp: shutdownCalls_def)
  from a s have p: "p < length (promises ?st)" "invocations p ?st = []"
    unfolding storedOk_def by blast+
  have pr: "promises (stop r ?st) = promises (stopCalled ?st)"
    using assms by (cases r) (simp_all add: stop_def httpClosed_def)
  have len: "length (promises (stopCalled ?st)) = length (promises ?st)"
    by (simp add: stopCalled_def clear_def stopCleanupTimer_def Let_def)
  have "inv0 (stopCalled ?st)" using inv_stopCalled [OF i s] by simp
  with p(1) len have "promises (stopCalled ?st) ! p
      = (case invocations p (stopCalled ?st) of [] \<Rightarrow> None | first # later \<Rightarrow> Some first)"
    unfolding inv0_def by simp
  moreover have "invocations p (stopCalled ?st) = callsOf p (shutdownCalls (sessions ?st))"
    using assms p(2) by (simp add: invocations_def effects_stopCalled)
  moreover obtain c cs where "callsOf p (shutdownCalls (sessions ?st)) = c # cs"
    using callsOf_shutdownCalls(2) [of sid s "sessions ?st" p] a
    by (cases "callsOf p (shutdownCalls (sessions ?st))") auto
  moreover from this have "c = Rejected SERVER_SHUTDOWN"
    using callsOf_shutdownCalls(1) [of p "sessions ?st"] by auto
  ultimately show "promises (stop r ?st) ! p = Some (Rejected SERVER_SHUTDOWN)"
    using pr by simp
qed

theorem stop_aborts_sessions_before_close_witness:
  "effects (stop Closed (run [Started 5000, CollectFeedback ''did X'' 10 ''s1'' 0] newServer))
     = [Invoke 0 (Rejected SERVER_SHUTDOWN), ClearInterval, DisconnectSockets, CloseIO, CloseHttp,
        WaitForPortRelease 5000]
   \<and> promises (stop Closed (run [Started 5000, CollectFeedback ''did X'' 10 ''s1'' 0] newServer)) ! 0
     = Some (Rejected SERVER_SHUTDOWN)"
proof -
  let ?st = "run [Started 5000, CollectFeedback ''did X'' 10 ''s1'' 0] newServer"
  have st: "?st = \<lparr>sessions = [(''s1'', \<lparr>workSummary = ''did X'', feedback = 0, startTime = 0,
                       timeout = 10000, resolve = Some 0, reject = Some 0\<rparr>)],
                  arrays = [Nil], promises = [None], timers = [(0, ''s1'')], awaiting = [],
                  cleanupInterval = True, isServerRunning = True, listenPort = 5000,
                  effects = []\<rparr>"
    by (simp add: run_def newServer_def collectFeedback_def createSession_def Let_def)
  have running: "isServerRunning ?st" by (simp add: st)
  have "(''s1'', \<lparr>workSummary = ''did X'', feedback = 0, startTime = 0,
                       timeout = 10000, resolve = Some 0, reject = Some 0\<rparr>) \<in> set (sessions ?st)"
    by (simp add: st)
  then show ?thesis
    using stop_aborts_sessions_before_close [OF running, of Closed]
    by (simp add: st shutdownCalls_def)
qed

section \<open>The session handed to a connecting client\<close>

lemma latestLoop_newest:
  "latestLoop es (Some l) = Some r \<Longrightarrow>
     r \<in> insert l (set es) \<and> (\<forall>e \<in> insert l (set es). startTime (snd e) \<le> startTime (snd r))"
proof (induction es arbitrary: l)
  case Nil
  then show ?case by simp
next
  case (Cons e es)
  obtain sid s where e: "e = (sid, s)" by (cases e)
  obtain lid ls where l: "l = (lid, ls)" by (cases l)
  show ?case
  proof (cases "startTime s > startTime ls")
    case True
    with Cons.prems e l have "latestLoop es (Some e) = Some r" by simp
    from Cons.IH [OF this] True e l show ?thesis by auto
  next
    case False
    with Cons.prems e l have "latestLoop es (Some l) = Some r" by simp
    from Cons.IH [OF this] False e l show ?thesis by auto
  qed
qed

text \<open>
  What \<open>request_session\<close> assigns is a stored session with the greatest start time among
  all stored sessions, expired or not.
\<close>

lemma request_session_newest_stored:
  assumes "request_session st = session_assigned sid summary"
  shows "\<exists>s. (sid, s) \<in> set (sessions st) \<and> workSummary s = summary \<and>
             (\<forall>e \<in> set (sessions st). startTime (snd e) \<le> startTime s)"
proof (cases "sessions st")
  case Nil
  with assms show ?thesis by (simp add: request_session_def getAllSessions_def)
next
  case (Cons e es)
  obtain k s0 where e: "e = (k, s0)" by (cases e)
  obtain r where r: "latestLoop es (Some e) = Some r"
    using latestLoop_Some [of es e] by blast
  obtain rid rs where rr: "r = (rid, rs)" by (cases r)
  from assms Cons e r rr have "rid = sid" "workSummary rs = summary"
    by (simp_all add: request_session_def getAllSessions_def)
  with latestLoop_newest [OF r] rr Cons show ?thesis by auto
qed

text \<open>
  C9. \<open>request_session\<close> does not look at the clock. A test session created at time 0
  with a timeout of one second is the only session; at time 2000 \<open>getSession\<close> treats
  it as expired and \<open>getStats\<close> counts no active session, and \<open>request_session\<close> still
  assigns it.
\<close>

theorem request_session_assigns_expired:
  "request_session (run [TestSession ''did X'' 1 ''s1'' 0] newServer)
     = session_assigned ''s1'' ''did X''
   \<and> fst (getSession ''s1'' 2000 (run [TestSession ''did X'' 1 ''s1'' 0] newServer)) = None
   \<and> activeSessions (getStats 2000 (run [TestSession ''did X'' 1 ''s1'' 0] newServer)) = 0"
  by (simp add: run_def newServer_def api_test_session_def createSession_def request_session_def
        getAllSessions_def getSession_def getStats_def)

end
